theory Spec2Isabelle
  imports Main "HOL-Library.Word"
begin

unbundle bit_operations_syntax

section \<open>Data model\<close>

type_synonym u8 = "8 word"
type_synonym u32 = "32 word"

text \<open>
  \<^verbatim>\<open>std::memcpy\<close> outside the bytes of its source or destination object is undefined
  behaviour in C++. The model makes it a value: every copy checks both ranges.
\<close>

datatype fault = OutOfBounds

text \<open>The 16-byte header at the start of the shared region.\<close>

record RingHeader =
  head :: u32
  tail :: u32
  capacity :: u32
  reserved :: u32

definition kHeaderSize :: u32 where
  "kHeaderSize = 16"

text \<open>
  A view on the region: the header fields (shared), the bytes after the header
  (\<open>m_data\<close>, shared), and the view's own \<open>m_mask\<close> and \<open>m_is_producer\<close>. These are
  the members \<^verbatim>\<open>data_\<close>, \<^verbatim>\<open>mask_\<close> and \<^verbatim>\<open>is_producer_\<close>; a name here cannot end in an
  underscore. The fences order the accesses of two processes and have no effect on a
  single sequence of calls, which is what is modelled.
\<close>

record ByteRingBuffer = RingHeader +
  m_data :: "u8 list"
  m_mask :: u32
  m_is_producer :: bool

section \<open>Byte copies\<close>

text \<open>
  \<open>memcpy dst doff src soff n\<close> is \<^verbatim>\<open>std::memcpy(dst + doff, src + soff, n)\<close>:
  the new contents of \<open>dst\<close>.
\<close>

definition memcpy :: "u8 list \<Rightarrow> nat \<Rightarrow> u8 list \<Rightarrow> nat \<Rightarrow> nat \<Rightarrow> fault + u8 list" where
  "memcpy dst doff src soff n =
     (if doff + n \<le> length dst \<and> soff + n \<le> length src
      then Inr (take doff dst @ take n (drop soff src) @ drop (doff + n) dst)
      else Inl OutOfBounds)"

text \<open>The four bytes of a \<^verbatim>\<open>uint32_t\<close> in memory (little-endian), and back.\<close>

definition le_bytes :: "u32 \<Rightarrow> u8 list" where
  "le_bytes w = [ucast w, ucast (drop_bit 8 w), ucast (drop_bit 16 w), ucast (drop_bit 24 w)]"

fun le_word :: "u8 list \<Rightarrow> u32" where
  "le_word [b0, b1, b2, b3] =
     ucast b0 OR push_bit 8 (ucast b1) OR push_bit 16 (ucast b2) OR push_bit 24 (ucast b3)"
| "le_word _ = 0"

section \<open>The ring view\<close>

definition RoundDownPow2 :: "u32 \<Rightarrow> u32" where
  "RoundDownPow2 v =
     (if v = 0 then 0
      else
        let v1 = v OR drop_bit 1 v;
            v2 = v1 OR drop_bit 2 v1;
            v3 = v2 OR drop_bit 4 v2;
            v4 = v3 OR drop_bit 8 v3;
            v5 = v4 OR drop_bit 16 v4
        in drop_bit 1 v5 + 1)"

text \<open>
  The constructor binds to a region whose header currently holds \<open>hdr\<close> and whose bytes
  after the header are \<open>bytes\<close>. Only the producer writes the header.
\<close>

definition ByteRingBuffer_new :: "RingHeader \<Rightarrow> u8 list \<Rightarrow> u32 \<Rightarrow> bool \<Rightarrow> ByteRingBuffer" where
  "ByteRingBuffer_new hdr bytes total_size is_producer =
     (let hdr' =
        (if is_producer then
           (let data_size = total_size - kHeaderSize;
                cap = RoundDownPow2 data_size
            in \<lparr>head = 0, tail = 0, capacity = cap, reserved = 0\<rparr>)
         else hdr)
      in \<lparr>head = head hdr', tail = tail hdr', capacity = capacity hdr',
          reserved = reserved hdr', m_data = bytes,
          m_mask = capacity hdr' - 1, m_is_producer = is_producer\<rparr>)"

definition WriteRaw :: "ByteRingBuffer \<Rightarrow> u32 \<Rightarrow> u8 list \<Rightarrow> u32 \<Rightarrow> fault + ByteRingBuffer" where
  "WriteRaw r pos src len =
     (let offset = pos AND m_mask r;
          first = capacity r - offset
      in if first \<ge> len then
           (case memcpy (m_data r) (unat offset) src 0 (unat len) of
              Inl e \<Rightarrow> Inl e
            | Inr d \<Rightarrow> Inr (r\<lparr>m_data := d\<rparr>))
         else
           (case memcpy (m_data r) (unat offset) src 0 (unat first) of
              Inl e \<Rightarrow> Inl e
            | Inr d1 \<Rightarrow>
                (case memcpy d1 0 src (unat first) (unat (len - first)) of
                   Inl e \<Rightarrow> Inl e
                 | Inr d2 \<Rightarrow> Inr (r\<lparr>m_data := d2\<rparr>))))"

definition ReadRaw :: "ByteRingBuffer \<Rightarrow> u32 \<Rightarrow> u8 list \<Rightarrow> u32 \<Rightarrow> fault + u8 list" where
  "ReadRaw r pos dst len =
     (let offset = pos AND m_mask r;
          first = capacity r - offset
      in if first \<ge> len then
           memcpy dst 0 (m_data r) (unat offset) (unat len)
         else
           (case memcpy dst 0 (m_data r) (unat offset) (unat first) of
              Inl e \<Rightarrow> Inl e
            | Inr dst1 \<Rightarrow> memcpy dst1 (unat first) (m_data r) 0 (unat (len - first))))"

definition WriteableBytes :: "ByteRingBuffer \<Rightarrow> u32" where
  "WriteableBytes r = capacity r - (head r - tail r)"

definition ReadableBytes :: "ByteRingBuffer \<Rightarrow> u32" where
  "ReadableBytes r = head r - tail r"

definition HasData :: "ByteRingBuffer \<Rightarrow> bool" where
  "HasData r = (ReadableBytes r \<ge> 4)"

definition Capacity :: "ByteRingBuffer \<Rightarrow> u32" where
  "Capacity r = capacity r"

text \<open>
  \<open>Write r src len\<close>: \<open>src\<close> is the caller's buffer, \<open>len\<close> the length passed with
  it. The result is the returned flag and the region afterwards.
\<close>

definition Write :: "ByteRingBuffer \<Rightarrow> u8 list \<Rightarrow> u32 \<Rightarrow> fault + (bool \<times> ByteRingBuffer)" where
  "Write r src len =
     (let total = len + 4 in
      if WriteableBytes r < total then Inr (False, r)
      else
        let h = head r in
        case WriteRaw r h (le_bytes len) 4 of
          Inl e \<Rightarrow> Inl e
        | Inr r1 \<Rightarrow>
            (case WriteRaw r1 (h + 4) src len of
               Inl e \<Rightarrow> Inl e
             | Inr r2 \<Rightarrow> Inr (True, r2\<lparr>head := h + total\<rparr>)))"

text \<open>
  \<open>Read r out max_len\<close>: \<open>out\<close> is the caller's buffer before the call. The result is
  the returned length, the caller's buffer afterwards, and the region afterwards.
\<close>

definition Read :: "ByteRingBuffer \<Rightarrow> u8 list \<Rightarrow> u32 \<Rightarrow> fault + (u32 \<times> u8 list \<times> ByteRingBuffer)" where
  "Read r out max_len =
     (let t = tail r;
          h = head r;
          available = h - t
      in if available < 4 then Inr (0, out, r)
         else
           case ReadRaw r t [0, 0, 0, 0] 4 of
             Inl e \<Rightarrow> Inl e
           | Inr lb \<Rightarrow>
               (let msg_len = le_word lb in
                if msg_len = 0 \<or> available < msg_len + 4 then Inr (0, out, r)
                else if msg_len > max_len then
                  Inr (0, out, r\<lparr>tail := t + msg_len + 4\<rparr>)
                else
                  case ReadRaw r (t + 4) out msg_len of
                    Inl e \<Rightarrow> Inl e
                  | Inr out' \<Rightarrow> Inr (msg_len, out', r\<lparr>tail := t + msg_len + 4\<rparr>)))"

section \<open>The region provider and the facades\<close>

text \<open>\<^verbatim>\<open>sizeof(name_)\<close> of \<^verbatim>\<open>char name_[64]\<close>.\<close>

definition sizeof_name :: nat where
  "sizeof_name = 64"

text \<open>
  \<open>NormalizeName\<close>, POSIX branch. A C string is the characters before its NUL, so the
  empty string has \<^verbatim>\<open>name[0] == '\0'\<close>, which is not a slash. The result is the C string
  left in \<open>name_\<close>.
\<close>

definition NormalizeName :: "string \<Rightarrow> string" where
  "NormalizeName name =
     (let len = length name in
      if name \<noteq> [] \<and> hd name = CHR ''/'' then
        (let len' = (if len > sizeof_name - 1 then sizeof_name - 1 else len)
         in take len' name)
      else
        (let len' = (if len > sizeof_name - 2 then sizeof_name - 2 else len)
         in CHR ''/'' # take len' name))"

text \<open>
  \<open>PosixOpen\<close> as far as the mapped size goes: \<open>m_size\<close> is what the constructor was
  given, \<open>fstat_ok\<close> and \<open>st_size\<close> what \<^verbatim>\<open>fstat\<close> reports for the region. The result
  is the \<open>m_size\<close> handed to \<^verbatim>\<open>mmap\<close>.
\<close>

definition PosixOpen_size :: "nat \<Rightarrow> bool \<Rightarrow> int \<Rightarrow> nat" where
  "PosixOpen_size m_size fstat_ok st_size =
     (if m_size = 0 then
        (if fstat_ok \<and> st_size > 0 then nat st_size else m_size)
      else m_size)"

definition kDefaultSize :: u32 where
  "kDefaultSize = 1920 * 1080 * 3 + kHeaderSize"

text \<open>The size \<open>ShmConsumer\<close>'s constructor passes to \<open>SharedMemory\<close>.\<close>

definition ShmConsumer_shm_size :: "u32 \<Rightarrow> nat" where
  "ShmConsumer_shm_size sz = unat (if sz > 0 then sz else kDefaultSize)"

text \<open>The size \<open>ShmProducer\<close>'s constructor passes to \<open>SharedMemory\<close>.\<close>

definition ShmProducer_shm_size :: "u32 \<Rightarrow> nat" where
  "ShmProducer_shm_size cap = unat (cap + kHeaderSize)"

text \<open>\<open>c\<close> is the largest power of two that is at most \<open>n\<close>.\<close>

definition largest_pow2_le :: "nat \<Rightarrow> nat \<Rightarrow> bool" where
  "largest_pow2_le c n \<longleftrightarrow> (\<exists>k. c = 2 ^ k) \<and> c \<le> n \<and> (\<forall>j. 2 ^ j \<le> n \<longrightarrow> 2 ^ j \<le> c)"

section \<open>Runs of operations\<close>

text \<open>
  The states a region goes through: the producer's constructor initialises it, a
  consumer's constructor attaches to it, and \<open>Write\<close> and \<open>Read\<close> calls that return
  take it to the next state.
\<close>

inductive reachable :: "ByteRingBuffer \<Rightarrow> bool" where
  reach_init: "reachable (ByteRingBuffer_new hdr bytes total_size True)"
| reach_attach: "reachable r \<Longrightarrow>
     reachable (ByteRingBuffer_new (RingHeader.truncate r) (m_data r) total_size False)"
| reach_write: "reachable r \<Longrightarrow> Write r src len = Inr (b, r') \<Longrightarrow> reachable r'"
| reach_read: "reachable r \<Longrightarrow> Read r out max_len = Inr (n, out', r') \<Longrightarrow> reachable r'"

text \<open>
  The loops of the test suite: write every payload with its length, stopping at the first
  one \<open>Write\<close> refuses; then read \<open>n\<close> times into a fresh buffer of \<open>max_len\<close> bytes,
  keeping from each the bytes \<open>Read\<close> says it delivered.
\<close>

fun write_payloads :: "ByteRingBuffer \<Rightarrow> u8 list list \<Rightarrow> fault + (bool \<times> ByteRingBuffer)" where
  "write_payloads r [] = Inr (True, r)"
| "write_payloads r (p # ps) =
     (case Write r p (of_nat (length p)) of
        Inl e \<Rightarrow> Inl e
      | Inr (ok, r') \<Rightarrow> if ok then write_payloads r' ps else Inr (False, r'))"

fun read_payloads :: "ByteRingBuffer \<Rightarrow> nat \<Rightarrow> u32 \<Rightarrow> fault + (u8 list list \<times> ByteRingBuffer)" where
  "read_payloads r 0 max_len = Inr ([], r)"
| "read_payloads r (Suc n) max_len =
     (case Read r (replicate (unat max_len) 0) max_len of
        Inl e \<Rightarrow> Inl e
      | Inr (k, out', r') \<Rightarrow>
          (case read_payloads r' n max_len of
             Inl e \<Rightarrow> Inl e
           | Inr (ps, r'') \<Rightarrow> Inr (take (unat k) out' # ps, r'')))"

section \<open>What a ring holds\<close>

text \<open>
  A view is well formed when its capacity is a power of two, its mask is the capacity
  minus 1, and the data area has at least \<open>capacity\<close> bytes.
\<close>

definition ring_ok :: "ByteRingBuffer \<Rightarrow> bool" where
  "ring_ok r \<longleftrightarrow> (\<exists>k<32. capacity r = 2 ^ k) \<and> m_mask r = capacity r - 1 \<and>
     unat (capacity r) \<le> length (m_data r)"

text \<open>The bytes of one frame, and of a sequence of frames one after the other.\<close>

definition frame_bytes :: "u8 list \<Rightarrow> u8 list" where
  "frame_bytes p = le_bytes (of_nat (length p)) @ p"

definition frames_bytes :: "u8 list list \<Rightarrow> u8 list" where
  "frames_bytes ps = concat (map frame_bytes ps)"

text \<open>
  \<open>ring_holds r ps\<close>: the bytes between tail and head, read circularly, are exactly the
  frames of the non-empty payloads \<open>ps\<close>, oldest first.
\<close>

definition ring_holds :: "ByteRingBuffer \<Rightarrow> u8 list list \<Rightarrow> bool" where
  "ring_holds r ps \<longleftrightarrow>
     ring_ok r \<and>
     unat (head r - tail r) = length (frames_bytes ps) \<and>
     length (frames_bytes ps) \<le> unat (capacity r) \<and>
     (\<forall>k<length (frames_bytes ps).
        m_data r ! ((unat (tail r) + k) mod unat (capacity r)) = frames_bytes ps ! k) \<and>
     (\<forall>p\<in>set ps. p \<noteq> [])"

section \<open>Example regions\<close>

text \<open>A 32-byte region (16-byte data area) holding stale bytes, bound by a producer.\<close>

definition ring16 :: ByteRingBuffer where
  "ring16 = ByteRingBuffer_new \<lparr>head = 7, tail = 9, capacity = 3, reserved = 1\<rparr>
     [0xAA, 0xAA, 0xAA, 0xAA, 0xAA, 0xAA, 0xAA, 0xAA,
      0xAA, 0xAA, 0xAA, 0xAA, 0xAA, 0xAA, 0xAA, 0xAA] 32 True"

text \<open>The payload \<^verbatim>\<open>"hello world!"\<close> of the test suite.\<close>

definition hello_world :: "u8 list" where
  "hello_world = [104, 101, 108, 108, 111, 32, 119, 111, 114, 108, 100, 33]"

text \<open>A region with the largest data area a 32-bit capacity allows, 2 GiB, all zero.\<close>

definition ring_2G :: ByteRingBuffer where
  "ring_2G = ByteRingBuffer_new \<lparr>head = 0, tail = 0, capacity = 0, reserved = 0\<rparr>
     (replicate 2147483648 0) 2147483664 True"

text \<open>
  The 2 GiB ring filled to the last byte by one frame: a payload of \<open>2^31 - 4\<close> bytes
  \<open>0x42\<close> behind its length prefix \<^verbatim>\<open>FC FF FF 7F\<close>.
\<close>

definition ring_2G_full :: ByteRingBuffer where
  "ring_2G_full = ring_2G\<lparr>head := 2147483648,
     m_data := [252, 255, 255, 127] @ replicate 2147483644 66\<rparr>"

text \<open>
  A consumer view bound to a 32-byte region whose header says head 8, tail 0,
  capacity 16, and whose data area starts with the bytes \<^verbatim>\<open>FF FF FF FF\<close>.
\<close>

definition ring16_ff :: ByteRingBuffer where
  "ring16_ff = ByteRingBuffer_new \<lparr>head = 8, tail = 0, capacity = 16, reserved = 0\<rparr>
     [0xFF, 0xFF, 0xFF, 0xFF, 0xAA, 0xAA, 0xAA, 0xAA,
      0xAA, 0xAA, 0xAA, 0xAA, 0xAA, 0xAA, 0xAA, 0xAA] 32 False"

text \<open>
  A region of \<open>2^31 + 22\<close> bytes, all zero, bound by a producer: the capacity is \<open>2^31\<close>
  and 6 bytes of the region lie behind the data area.
\<close>

definition ring_2G6 :: ByteRingBuffer where
  "ring_2G6 = ByteRingBuffer_new \<lparr>head = 0, tail = 0, capacity = 0, reserved = 0\<rparr>
     (replicate 2147483654 0) 2147483670 True"

section \<open>Evaluating the examples\<close>

lemmas ring_eval = Write_def Read_def WriteRaw_def ReadRaw_def memcpy_def le_bytes_def
  WriteableBytes_def ReadableBytes_def HasData_def

lemma ring16_eq:
  "ring16 = \<lparr>head = 0, tail = 0, capacity = 16, reserved = 0,
     m_data = [0xAA, 0xAA, 0xAA, 0xAA, 0xAA, 0xAA, 0xAA, 0xAA,
               0xAA, 0xAA, 0xAA, 0xAA, 0xAA, 0xAA, 0xAA, 0xAA],
     m_mask = 15, m_is_producer = True\<rparr>"
  by (simp add: ring16_def ByteRingBuffer_new_def RoundDownPow2_def kHeaderSize_def)

lemma ring16_write_hello_world:
  "Write ring16 hello_world 12 =
     Inr (True, ring16\<lparr>head := 16, m_data := 12 # 0 # 0 # 0 # hello_world\<rparr>)"
  by (simp add: ring16_eq hello_world_def ring_eval)

lemma ring_2G_eq:
  "ring_2G = \<lparr>head = 0, tail = 0, capacity = 2147483648, reserved = 0,
     m_data = replicate 2147483648 0, m_mask = 2147483647, m_is_producer = True\<rparr>"
  by (simp add: ring_2G_def ByteRingBuffer_new_def RoundDownPow2_def kHeaderSize_def)

lemma ring_2G_fill:
  "Write ring_2G (replicate 2147483644 66) 2147483644 = Inr (True, ring_2G_full)"
  by (simp add: ring_2G_eq ring_2G_full_def ring_eval)

lemma ring16_ff_eq:
  "ring16_ff = \<lparr>head = 8, tail = 0, capacity = 16, reserved = 0,
     m_data = [0xFF, 0xFF, 0xFF, 0xFF, 0xAA, 0xAA, 0xAA, 0xAA,
               0xAA, 0xAA, 0xAA, 0xAA, 0xAA, 0xAA, 0xAA, 0xAA],
     m_mask = 15, m_is_producer = False\<rparr>"
  by (simp add: ring16_ff_def ByteRingBuffer_new_def)

lemma ring_2G6_eq:
  "ring_2G6 = \<lparr>head = 0, tail = 0, capacity = 2147483648, reserved = 0,
     m_data = replicate 2147483654 0, m_mask = 2147483647, m_is_producer = True\<rparr>"
  by (simp add: ring_2G6_def ByteRingBuffer_new_def RoundDownPow2_def kHeaderSize_def)

lemma replicate_4: "replicate 4 x = [x, x, x, x]"
  by (simp add: eval_nat_numeral)

section \<open>Capacity rounding\<close>

text \<open>
  Each \<open>v |= v >> s\<close> doubles the run of bits set below every set bit of \<open>v\<close>.
\<close>

lemma smear_step:
  fixes x v :: u32
  assumes "\<And>i. bit x i \<longleftrightarrow> (\<exists>d<n. bit v (i + d))"
  shows "bit (x OR drop_bit n x) i \<longleftrightarrow> (\<exists>d<2 * n. bit v (i + d))"
proof
  assume "bit (x OR drop_bit n x) i"
  then consider "bit x i" | "bit x (n + i)"
    by (auto simp: bit_or_iff bit_drop_bit_eq)
  then show "\<exists>d<2 * n. bit v (i + d)"
  proof cases
    case 1
    then obtain d where "d < n" "bit v (i + d)" using assms by blast
    then show ?thesis by (intro exI[of _ d]) simp
  next
    case 2
    then obtain d where "d < n" "bit v (n + i + d)" using assms by blast
    then show ?thesis by (intro exI[of _ "n + d"]) (simp add: ac_simps)
  qed
next
  assume "\<exists>d<2 * n. bit v (i + d)"
  then obtain d where d: "d < 2 * n" "bit v (i + d)" by blast
  show "bit (x OR drop_bit n x) i"
  proof (cases "d < n")
    case True
    with d assms have "bit x i" by blast
    then show ?thesis by (simp add: bit_or_iff)
  next
    case False
    with d have "d - n < n" "bit v (n + i + (d - n))" by (simp_all add: ac_simps)
    with assms have "bit x (n + i)" by blast
    then show ?thesis by (simp add: bit_or_iff bit_drop_bit_eq)
  qed
qed

lemma smear_all:
  fixes v :: u32
  defines "v1 \<equiv> v OR drop_bit 1 v"
  defines "v2 \<equiv> v1 OR drop_bit 2 v1"
  defines "v3 \<equiv> v2 OR drop_bit 4 v2"
  defines "v4 \<equiv> v3 OR drop_bit 8 v3"
  defines "v5 \<equiv> v4 OR drop_bit 16 v4"
  shows "bit v5 i \<longleftrightarrow> (\<exists>d<32. bit v (i + d))"
proof -
  have s0: "\<And>i. bit v i \<longleftrightarrow> (\<exists>d<1. bit v (i + d))" by simp
  have s1: "\<And>i. bit v1 i \<longleftrightarrow> (\<exists>d<2. bit v (i + d))"
    unfolding v1_def using smear_step [OF s0] by simp
  have s2: "\<And>i. bit v2 i \<longleftrightarrow> (\<exists>d<4. bit v (i + d))"
    unfolding v2_def using smear_step [OF s1] by simp
  have s3: "\<And>i. bit v3 i \<longleftrightarrow> (\<exists>d<8. bit v (i + d))"
    unfolding v3_def using smear_step [OF s2] by simp
  have s4: "\<And>i. bit v4 i \<longleftrightarrow> (\<exists>d<16. bit v (i + d))"
    unfolding v4_def using smear_step [OF s3] by simp
  show ?thesis
    unfolding v5_def using smear_step [OF s4] by simp
qed

lemma top_bit:
  fixes v :: u32
  assumes "v \<noteq> 0"
  obtains k where "k < 32" "bit v k" "\<And>j. bit v j \<Longrightarrow> j \<le> k"
proof -
  let ?S = "{i. bit v i}"
  have sub: "?S \<subseteq> {..<32}"
    using bit_imp_le_length [of v] by auto
  then have fin: "finite ?S" by (rule finite_subset) simp
  have ne: "?S \<noteq> {}"
    using assms by (auto simp: bit_eq_iff)
  have "Max ?S \<in> ?S" using fin ne by (rule Max_in)
  moreover have "\<And>j. bit v j \<Longrightarrow> j \<le> Max ?S" using fin by (simp add: Max_ge)
  ultimately show thesis using that sub by blast
qed

lemma RoundDownPow2_correct:
  fixes v :: u32
  assumes "v \<noteq> 0"
  shows "\<exists>k<32. RoundDownPow2 v = 2 ^ k \<and> 2 ^ k \<le> unat v \<and> unat v < 2 ^ Suc k"
proof -
  from assms obtain k where k: "k < 32" "bit v k" "\<And>j. bit v j \<Longrightarrow> j \<le> k"
    using top_bit [of v] by blast
  define v5 where "v5 = (let v1 = v OR drop_bit 1 v;
            v2 = v1 OR drop_bit 2 v1;
            v3 = v2 OR drop_bit 4 v2;
            v4 = v3 OR drop_bit 8 v3 in v4 OR drop_bit 16 v4)"
  have bit5: "bit v5 i \<longleftrightarrow> (\<exists>d<32. bit v (i + d))" for i
    unfolding v5_def Let_def by (rule smear_all)
  have "bit v5 i \<longleftrightarrow> i \<le> k" for i
  proof
    assume "bit v5 i"
    then obtain d where "bit v (i + d)" using bit5 by blast
    then have "i + d \<le> k" by (rule k(3))
    then show "i \<le> k" by simp
  next
    assume "i \<le> k"
    then have "k - i < 32" "bit v (i + (k - i))" using k by simp_all
    then show "bit v5 i" using bit5 by blast
  qed
  then have v5: "v5 = mask (Suc k)"
    using k(1) by (intro bit_eqI) (simp add: bit_mask_iff less_Suc_eq_le)
  have d: "drop_bit 1 v5 = (mask k :: u32)"
  proof -
    have "drop_bit 1 (mask (Suc k) :: u32) = mask (Suc k - 1)"
      using k(1) by (intro bit_eqI) (auto simp: bit_drop_bit_eq bit_mask_iff possible_bit_word)
    then show ?thesis unfolding v5 by simp
  qed
  have "RoundDownPow2 v = drop_bit 1 v5 + 1"
    unfolding RoundDownPow2_def v5_def Let_def using assms by (simp only: if_False)
  then have r: "RoundDownPow2 v = 2 ^ k"
    unfolding d by (simp add: mask_eq_exp_minus_1)
  have "bit (unat v) k"
    using k(2) by (simp add: bit_unsigned_iff)
  then have "odd (unat v div 2 ^ k)"
    by (simp add: bit_iff_odd)
  then have "unat v div 2 ^ k \<noteq> 0"
    by (metis even_zero)
  then have lo: "2 ^ k \<le> unat v"
    by (metis div_less not_le)
  have "v AND mask (Suc k) = v"
    using k(3) by (intro bit_eqI) (auto simp: bit_and_iff bit_mask_iff less_Suc_eq_le)
  then have "uint v < 2 ^ Suc k"
    by (simp only: mask_eq_iff)
  then have hi: "unat v < 2 ^ Suc k"
    by (metis nat_less_numeral_power_cancel_iff unat_eq_nat_uint)
  from r lo hi k(1) show ?thesis by blast
qed

lemma unat_pow2:
  assumes "k < 32"
  shows "unat ((2::u32) ^ k) = 2 ^ k"
proof -
  have "(2::u32) ^ k = of_nat (2 ^ k)" by simp
  then have "unat ((2::u32) ^ k) = 2 ^ k mod 2 ^ 32"
    by (simp add: unat_of_nat del: of_nat_power of_nat_numeral)
  moreover have "(2::nat) ^ k < 2 ^ 32"
    using assms by (simp only: power_strict_increasing_iff rel_simps)
  ultimately show ?thesis by simp
qed

lemma pow2_between_largest:
  assumes "2 ^ k \<le> n" "n < 2 ^ Suc k"
  shows "largest_pow2_le (2 ^ k) n"
proof -
  have "2 ^ j \<le> (2::nat) ^ k" if "2 ^ j \<le> n" for j
  proof -
    from that assms(2) have "(2::nat) ^ j < 2 ^ Suc k" by (rule le_less_trans)
    then have "j < Suc k" by (simp only: power_strict_increasing_iff rel_simps)
    then show ?thesis by (simp add: power_increasing)
  qed
  with assms(1) show ?thesis unfolding largest_pow2_le_def by blast
qed

text \<open>
  C5. A producer-mode view over a region of \<open>total_size\<close> bytes, with
  \<open>total_size - 16\<close> (as the constructor computes it, in 32 bits) at least 4, reports as
  \<open>Capacity()\<close> the largest power of two that is at most \<open>total_size - 16\<close>, and its
  header has head, tail and reserved 0. The producer facade binds its view with
  \<open>total_size = R + 16\<close> for a requested capacity \<open>R\<close>, so for \<open>R\<close> at least 4 its view
  reports the largest power of two that is at most \<open>R\<close>.
\<close>

theorem capacity_rounding:
  "(4 \<le> total_size - kHeaderSize \<longrightarrow>
      largest_pow2_le (unat (Capacity (ByteRingBuffer_new hdr bytes total_size True)))
        (unat (total_size - kHeaderSize)) \<and>
      head (ByteRingBuffer_new hdr bytes total_size True) = 0 \<and>
      tail (ByteRingBuffer_new hdr bytes total_size True) = 0 \<and>
      reserved (ByteRingBuffer_new hdr bytes total_size True) = 0) \<and>
   (4 \<le> R \<longrightarrow>
      largest_pow2_le
        (unat (Capacity (ByteRingBuffer_new hdr bytes (of_nat (ShmProducer_shm_size R)) True)))
        (unat R))"
proof -
  have main: "largest_pow2_le (unat (RoundDownPow2 v)) (unat v)" if "4 \<le> v" for v :: u32
  proof -
    from that have "v \<noteq> 0" by auto
    then obtain k where k: "k < 32" "RoundDownPow2 v = 2 ^ k" "2 ^ k \<le> unat v" "unat v < 2 ^ Suc k"
      using RoundDownPow2_correct by blast
    from k(1) have "unat ((2::u32) ^ k) = 2 ^ k" by (rule unat_pow2)
    with k pow2_between_largest show ?thesis by simp
  qed
  have cap: "Capacity (ByteRingBuffer_new hdr bytes t True) = RoundDownPow2 (t - kHeaderSize)" for t
    by (simp add: Capacity_def ByteRingBuffer_new_def Let_def)
  have fac: "of_nat (ShmProducer_shm_size R) - kHeaderSize = R"
    by (simp add: ShmProducer_shm_size_def)
  have hdr0: "head (ByteRingBuffer_new hdr bytes total_size True) = 0 \<and>
      tail (ByteRingBuffer_new hdr bytes total_size True) = 0 \<and>
      reserved (ByteRingBuffer_new hdr bytes total_size True) = 0"
    by (simp add: ByteRingBuffer_new_def Let_def)
  from main [of "total_size - kHeaderSize"] main [of R] hdr0 show ?thesis
    unfolding cap fac by blast
qed

theorem capacity_rounding_witness:
  "(4 :: u32) \<le> 116 - kHeaderSize \<and>
   Capacity (ByteRingBuffer_new \<lparr>head = 7, tail = 9, capacity = 3, reserved = 1\<rparr> [] 116 True) = 64 \<and>
   largest_pow2_le 64 100 \<and>
   head (ByteRingBuffer_new \<lparr>head = 7, tail = 9, capacity = 3, reserved = 1\<rparr> [] 116 True) = 0 \<and>
   (4 :: u32) \<le> 33 \<and>
   Capacity (ByteRingBuffer_new \<lparr>head = 7, tail = 9, capacity = 3, reserved = 1\<rparr> []
     (of_nat (ShmProducer_shm_size 33)) True) = 32 \<and>
   largest_pow2_le 32 33"
proof -
  let ?h = "\<lparr>head = 7, tail = 9, capacity = 3, reserved = 1\<rparr>"
  have a: "(4 :: u32) \<le> 116 - kHeaderSize" and b: "(4 :: u32) \<le> 33"
    by (simp_all add: kHeaderSize_def)
  have c1: "Capacity (ByteRingBuffer_new ?h [] 116 True) = 64"
    by (simp add: Capacity_def ByteRingBuffer_new_def RoundDownPow2_def kHeaderSize_def)
  have c2: "Capacity (ByteRingBuffer_new ?h [] (of_nat (ShmProducer_shm_size 33)) True) = 32"
    by (simp add: Capacity_def ByteRingBuffer_new_def RoundDownPow2_def kHeaderSize_def
        ShmProducer_shm_size_def)
  from capacity_rounding [of 116 ?h "[]" 33] a b
  have "largest_pow2_le (unat (Capacity (ByteRingBuffer_new ?h [] 116 True))) (unat (116 - kHeaderSize))"
    and "head (ByteRingBuffer_new ?h [] 116 True) = 0"
    and "largest_pow2_le
        (unat (Capacity (ByteRingBuffer_new ?h [] (of_nat (ShmProducer_shm_size 33)) True)))
        (unat (33 :: u32))"
    by blast+
  with a b c1 c2 show ?thesis
    by (simp add: kHeaderSize_def)
qed

section \<open>Rejected writes\<close>

text \<open>
  Where the free-space check of \<open>Write\<close> is taken, \<open>Write\<close> returns false and the region
  it leaves is the region it found: head, tail and every data byte are as before. The
  check compares 32-bit unsigned values; it is the comparison of the numbers whenever
  \<open>len + 4\<close> is below \<open>2^32\<close>.
\<close>

theorem Write_full_rejected:
  "(WriteableBytes r < len + 4 \<longrightarrow> Write r src len = Inr (False, r)) \<and>
   (unat (WriteableBytes r) < unat len + 4 \<and> unat len + 4 < 2 ^ 32 \<longrightarrow>
      Write r src len = Inr (False, r))"
proof (intro conjI impI)
  assume "WriteableBytes r < len + 4"
  then show "Write r src len = Inr (False, r)"
    by (simp add: Write_def)
next
  assume a: "unat (WriteableBytes r) < unat len + 4 \<and> unat len + 4 < 2 ^ 32"
  then have "unat (len + 4) = unat len + 4"
    by (simp add: unat_word_ariths)
  with a have "WriteableBytes r < len + 4"
    by (simp add: word_less_nat_alt)
  then show "Write r src len = Inr (False, r)"
    by (simp add: Write_def)
qed

theorem Write_full_rejected_witness:
  "Write ring16 hello_world 12 =
     Inr (True, ring16\<lparr>head := 16, m_data := 12 # 0 # 0 # 0 # hello_world\<rparr>) \<and>
   WriteableBytes (ring16\<lparr>head := 16, m_data := 12 # 0 # 0 # 0 # hello_world\<rparr>) = 0 \<and>
   Write (ring16\<lparr>head := 16, m_data := 12 # 0 # 0 # 0 # hello_world\<rparr>) [89] 1 =
     Inr (False, ring16\<lparr>head := 16, m_data := 12 # 0 # 0 # 0 # hello_world\<rparr>)"
proof -
  let ?r = "ring16\<lparr>head := 16, m_data := 12 # 0 # 0 # 0 # hello_world\<rparr>"
  have free: "WriteableBytes ?r = 0"
    by (simp add: ring16_eq WriteableBytes_def)
  have full: "WriteableBytes ?r < 1 + 4"
    unfolding free by simp
  have full': "unat (WriteableBytes ?r) < unat (1 :: u32) + 4 \<and> unat (1 :: u32) + 4 < 2 ^ 32"
    unfolding free by simp
  from Write_full_rejected [of ?r 1 "[89]"] full full'
  have "Write ?r [89] 1 = Inr (False, ?r)"
    by blast
  with free ring16_write_hello_world show ?thesis
    by simp
qed

text \<open>
  C2. With fewer than \<open>L + 4\<close> bytes writeable, \<open>Write\<close> is to return false and change
  nothing. For \<open>L = 2^32 - 4\<close> it does not: \<open>len + 4\<close> is 0 in 32 bits and the check is
  not taken. The 2 GiB ring, filled by one accepted frame, has 0 bytes writeable; the
  next \<open>Write\<close>, of \<open>2^32 - 4\<close> bytes, returns true and has replaced the unread frame
  by its own bytes. On the empty 16-byte ring, with 16 bytes writeable, the copy after
  the check leaves the data area.
\<close>

theorem Write_full_overflow_not_rejected:
  "Write ring_2G (replicate 2147483644 66) 2147483644 = Inr (True, ring_2G_full) \<and>
   reachable ring_2G_full \<and>
   WriteableBytes ring_2G_full = 0 \<and>
   unat (WriteableBytes ring_2G_full) < unat (4294967292 :: u32) + 4 \<and>
   Write ring_2G_full (replicate 4294967292 65) 4294967292 =
     Inr (True, ring_2G_full\<lparr>m_data := replicate 2147483648 65\<rparr>) \<and>
   unat (WriteableBytes ring16) < unat (4294967292 :: u32) + 4 \<and>
   Write ring16 src 4294967292 = Inl OutOfBounds"
proof -
  have "reachable ring_2G"
    unfolding ring_2G_def by (rule reach_init)
  then have r: "reachable ring_2G_full"
    using ring_2G_fill by (rule reach_write)
  have f: "WriteableBytes ring_2G_full = 0"
    by (simp add: ring_2G_eq ring_2G_full_def WriteableBytes_def)
  have l: "unat (WriteableBytes ring_2G_full) < unat (4294967292 :: u32) + 4"
    unfolding f by simp
  have w: "Write ring_2G_full (replicate 4294967292 65) 4294967292 =
      Inr (True, ring_2G_full\<lparr>m_data := replicate 2147483648 65\<rparr>)"
    by (simp add: ring_2G_eq ring_2G_full_def ring_eval)
  have l16: "unat (WriteableBytes ring16) < unat (4294967292 :: u32) + 4"
    by (simp add: ring16_eq WriteableBytes_def)
  have w16: "Write ring16 src 4294967292 = Inl OutOfBounds"
    by (simp add: ring16_eq ring_eval)
  from ring_2G_fill r f l w l16 w16 show ?thesis by blast
qed

section \<open>Reads that find no frame\<close>

text \<open>
  \<open>Read\<close> returns 0 and leaves the region and the caller's buffer as they were when
  head equals tail, when fewer than 4 bytes are readable, when the length prefix at tail
  is 0, and when its check of the readable bytes against the prefix plus 4 is taken.
  That check compares 32-bit unsigned values; it is the comparison of the numbers
  whenever the prefix plus 4 is below \<open>2^32\<close>. With head equal to tail, \<open>HasData\<close> is
  false.
\<close>

theorem Read_no_frame:
  "(head r = tail r \<or> ReadableBytes r < 4 \<longrightarrow> Read r out max_len = Inr (0, out, r)) \<and>
   (ReadRaw r (tail r) [0, 0, 0, 0] 4 = Inr lb \<and>
      (le_word lb = 0 \<or> ReadableBytes r < le_word lb + 4) \<longrightarrow>
      Read r out max_len = Inr (0, out, r)) \<and>
   (ReadRaw r (tail r) [0, 0, 0, 0] 4 = Inr lb \<and>
      unat (ReadableBytes r) < unat (le_word lb) + 4 \<and> unat (le_word lb) + 4 < 2 ^ 32 \<longrightarrow>
      Read r out max_len = Inr (0, out, r)) \<and>
   (head r = tail r \<longrightarrow> \<not> HasData r)"
proof (intro conjI impI)
  assume "head r = tail r \<or> ReadableBytes r < 4"
  then show "Read r out max_len = Inr (0, out, r)"
    by (auto simp: Read_def ReadableBytes_def Let_def)
next
  assume "ReadRaw r (tail r) [0, 0, 0, 0] 4 = Inr lb \<and>
      (le_word lb = 0 \<or> ReadableBytes r < le_word lb + 4)"
  then show "Read r out max_len = Inr (0, out, r)"
    by (auto simp: Read_def ReadableBytes_def Let_def)
next
  assume a: "ReadRaw r (tail r) [0, 0, 0, 0] 4 = Inr lb \<and>
      unat (ReadableBytes r) < unat (le_word lb) + 4 \<and> unat (le_word lb) + 4 < 2 ^ 32"
  then have "unat (le_word lb + 4) = unat (le_word lb) + 4"
    by (simp add: unat_word_ariths)
  with a have "ReadableBytes r < le_word lb + 4"
    by (simp add: word_less_nat_alt)
  with a show "Read r out max_len = Inr (0, out, r)"
    by (auto simp: Read_def ReadableBytes_def Let_def)
next
  assume "head r = tail r"
  then show "\<not> HasData r"
    by (simp add: HasData_def ReadableBytes_def)
qed

theorem Read_no_frame_witness:
  "Read (ring16\<lparr>head := 16, tail := 16\<rparr>) [1, 2] 2 = Inr (0, [1, 2], ring16\<lparr>head := 16, tail := 16\<rparr>) \<and>
   Read (ring16\<lparr>head := 3\<rparr>) [1, 2] 2 = Inr (0, [1, 2], ring16\<lparr>head := 3\<rparr>) \<and>
   Read (ring16\<lparr>head := 8, m_data := 0 # 0 # 0 # 0 # hello_world\<rparr>) [1, 2] 2 =
     Inr (0, [1, 2], ring16\<lparr>head := 8, m_data := 0 # 0 # 0 # 0 # hello_world\<rparr>) \<and>
   Read (ring16\<lparr>head := 9, m_data := 12 # 0 # 0 # 0 # hello_world\<rparr>) [1, 2] 2 =
     Inr (0, [1, 2], ring16\<lparr>head := 9, m_data := 12 # 0 # 0 # 0 # hello_world\<rparr>) \<and>
   unat (ReadableBytes (ring16\<lparr>head := 9, m_data := 12 # 0 # 0 # 0 # hello_world\<rparr>)) = 9 \<and>
   \<not> HasData (ring16\<lparr>head := 16, tail := 16\<rparr>)"
proof -
  let ?e = "ring16\<lparr>head := 16, tail := 16\<rparr>"
  let ?s = "ring16\<lparr>head := 3\<rparr>"
  let ?z = "ring16\<lparr>head := 8, m_data := 0 # 0 # 0 # 0 # hello_world\<rparr>"
  let ?p = "ring16\<lparr>head := 9, m_data := 12 # 0 # 0 # 0 # hello_world\<rparr>"
  have e: "head ?e = tail ?e"
    by simp
  have s: "ReadableBytes ?s < 4"
    by (simp add: ring16_eq ReadableBytes_def)
  have z: "ReadRaw ?z (tail ?z) [0, 0, 0, 0] 4 = Inr [0, 0, 0, 0]"
    by (simp add: ring16_eq hello_world_def ReadRaw_def memcpy_def)
  have p: "ReadRaw ?p (tail ?p) [0, 0, 0, 0] 4 = Inr [12, 0, 0, 0]"
    by (simp add: ring16_eq hello_world_def ReadRaw_def memcpy_def)
  have pn: "unat (ReadableBytes ?p) = 9"
    by (simp add: ring16_eq ReadableBytes_def)
  have pl: "ReadableBytes ?p < le_word [12, 0, 0, 0] + 4"
    by (simp add: ring16_eq ReadableBytes_def)
  have pl': "unat (ReadableBytes ?p) < unat (le_word [12, 0, 0, 0]) + 4 \<and>
      unat (le_word [12, 0, 0, 0]) + 4 < 2 ^ 32"
    unfolding pn by simp
  from e Read_no_frame [of ?e "[1, 2]" 2]
  have c1: "Read ?e [1, 2] 2 = Inr (0, [1, 2], ?e)" and c5: "\<not> HasData ?e"
    by blast+
  from s Read_no_frame [of ?s "[1, 2]" 2]
  have c2: "Read ?s [1, 2] 2 = Inr (0, [1, 2], ?s)"
    by blast
  from z Read_no_frame [of ?z "[1, 2]" 2 "[0, 0, 0, 0]"]
  have c3: "Read ?z [1, 2] 2 = Inr (0, [1, 2], ?z)"
    by simp
  from p pl pl' Read_no_frame [of ?p "[1, 2]" 2 "[12, 0, 0, 0]"]
  have c4: "Read ?p [1, 2] 2 = Inr (0, [1, 2], ?p)"
    by blast
  from c1 c2 c3 c4 c5 pn show ?thesis by blast
qed

text \<open>
  C8. With fewer bytes readable than the length prefix at tail plus 4, \<open>Read\<close> is to
  return 0 and change nothing. For a prefix of \<open>2^32 - 4\<close> or more it does not: the
  sum \<open>msg_len + 4\<close> is at most 3 in 32 bits and the check is not taken. With the prefix
  \<^verbatim>\<open>FF FF FF FF\<close> at tail and 8 bytes readable, \<open>Read\<close> into a 4-byte buffer takes the
  skip branch and moves tail from 0 to 3.
\<close>

theorem Read_prefix_overflow_moves_tail:
  "ReadRaw ring16_ff (tail ring16_ff) [0, 0, 0, 0] 4 = Inr [255, 255, 255, 255] \<and>
   le_word [255, 255, 255, 255] = 4294967295 \<and>
   unat (ReadableBytes ring16_ff) = 8 \<and>
   unat (ReadableBytes ring16_ff) < unat (4294967295 :: u32) + 4 \<and>
   tail ring16_ff = 0 \<and>
   Read ring16_ff [1, 2, 3, 4] 4 = Inr (0, [1, 2, 3, 4], ring16_ff\<lparr>tail := 3\<rparr>)"
  by (simp add: ring16_ff_eq ring_eval)

text \<open>
  Such a prefix can come from \<open>Write\<close> itself. On the region of \<open>2^31 + 22\<close> bytes, two
  writes of \<open>2^32 - 1\<close> bytes \<open>0xFF\<close> each pass the free-space check with \<open>len + 4 = 3\<close>,
  stay inside the region, and leave head at 6 over a data area of \<open>0xFF\<close>; the \<open>Read\<close>
  that follows moves tail to 3.
\<close>

lemma Read_prefix_overflow_reachable:
  "reachable (ring_2G6\<lparr>head := 6, m_data := replicate 2147483654 255\<rparr>) \<and>
   Read (ring_2G6\<lparr>head := 6, m_data := replicate 2147483654 255\<rparr>) [1, 2, 3, 4] 4 =
     Inr (0, [1, 2, 3, 4], ring_2G6\<lparr>head := 6, tail := 3, m_data := replicate 2147483654 255\<rparr>)"
proof -
  let ?r1 = "ring_2G6\<lparr>head := 3, m_data := replicate 2147483651 255 @ replicate 3 0\<rparr>"
  let ?r2 = "ring_2G6\<lparr>head := 6, m_data := replicate 2147483654 255\<rparr>"
  have w1: "Write ring_2G6 (replicate 4294967295 255) 4294967295 = Inr (True, ?r1)"
    by (simp add: ring_2G6_eq ring_eval replicate_add [symmetric])
  have w2: "Write ?r1 (replicate 4294967295 255) 4294967295 = Inr (True, ?r2)"
    by (simp add: ring_2G6_eq ring_eval replicate_add [symmetric])
  have "reachable ring_2G6"
    unfolding ring_2G6_def by (rule reach_init)
  then have "reachable ?r1" using w1 by (rule reach_write)
  then have r: "reachable ?r2" using w2 by (rule reach_write)
  have "Read ?r2 [1, 2, 3, 4] 4 =
      Inr (0, [1, 2, 3, 4], ring_2G6\<lparr>head := 6, tail := 3, m_data := replicate 2147483654 255\<rparr>)"
    by (simp add: ring_2G6_eq ring_eval replicate_4)
  with r show ?thesis by blast
qed

section \<open>Frames larger than the reader's buffer\<close>

text \<open>
  C6. When the bytes at tail are the length prefix \<open>L\<close> of a frame that is wholly
  readable (\<open>L + 4\<close> bytes or more are readable) and \<open>L\<close> exceeds \<open>max_len\<close>, \<open>Read\<close>
  returns 0, leaves the caller's buffer untouched and moves tail forward by \<open>L + 4\<close>:
  the frame is gone.
\<close>

theorem Read_skips_oversized:
  assumes "ReadRaw r (tail r) [0, 0, 0, 0] 4 = Inr lb"
    and "le_word lb = L"
    and "unat L + 4 \<le> unat (ReadableBytes r)"
    and "max_len < L"
  shows "Read r out max_len = Inr (0, out, r\<lparr>tail := tail r + L + 4\<rparr>)"
proof -
  have nz: "L \<noteq> 0"
    using assms(4) by (auto simp: word_less_nat_alt)
  have sum: "unat (L + 4) = unat L + 4"
    using assms(3) unsigned_less [of "ReadableBytes r", where ?'a = nat] by (simp add: unat_word_ariths)
  have enough: "\<not> head r - tail r < L + 4"
    using assms(3) sum by (simp add: ReadableBytes_def word_less_nat_alt)
  have four: "\<not> head r - tail r < 4"
    using assms(3) by (simp add: ReadableBytes_def word_less_nat_alt)
  show ?thesis
    using assms(1,2,4) nz enough four by (simp add: Read_def Let_def)
qed

theorem Read_skips_oversized_witness:
  "Write ring16 hello_world 12 = Inr (True, ring16\<lparr>head := 16, m_data := 12 # 0 # 0 # 0 # hello_world\<rparr>) \<and>
   Read (ring16\<lparr>head := 16, m_data := 12 # 0 # 0 # 0 # hello_world\<rparr>) [1, 2, 3, 4] 4 =
     Inr (0, [1, 2, 3, 4], ring16\<lparr>head := 16, tail := 16, m_data := 12 # 0 # 0 # 0 # hello_world\<rparr>)"
proof -
  let ?r = "ring16\<lparr>head := 16, m_data := 12 # 0 # 0 # 0 # hello_world\<rparr>"
  have p: "ReadRaw ?r (tail ?r) [0, 0, 0, 0] 4 = Inr [12, 0, 0, 0]"
    by (simp add: ring16_eq hello_world_def ReadRaw_def memcpy_def)
  have l: "le_word [12, 0, 0, 0] = 12"
    by simp
  have a: "unat (12 :: u32) + 4 \<le> unat (ReadableBytes ?r)"
    by (simp add: ring16_eq ReadableBytes_def)
  have m: "(4 :: u32) < 12"
    by simp
  from Read_skips_oversized [OF p l a m, of "[1, 2, 3, 4]"] ring16_write_hello_world
  show ?thesis by (simp add: ring16_eq)
qed

section \<open>Occupancy\<close>

lemma WriteRaw_header:
  "WriteRaw r pos src len = Inr r' \<Longrightarrow>
     head r' = head r \<and> tail r' = tail r \<and> capacity r' = capacity r \<and>
     reserved r' = reserved r \<and> m_mask r' = m_mask r \<and> m_is_producer r' = m_is_producer r"
  by (auto simp: WriteRaw_def Let_def split: if_splits sum.splits)

lemma Write_cases:
  assumes "Write r src len = Inr (b, r')"
  shows "tail r' = tail r \<and> capacity r' = capacity r \<and> m_mask r' = m_mask r \<and>
         (if b then head r' = head r + (len + 4) \<and> len + 4 \<le> WriteableBytes r else r' = r)"
proof (cases "WriteableBytes r < len + 4")
  case True
  with assms show ?thesis by (simp add: Write_def)
next
  case False
  with assms obtain r1 r2 where w1: "WriteRaw r (head r) (le_bytes len) 4 = Inr r1"
    and w2: "WriteRaw r1 (head r + 4) src len = Inr r2"
    and res: "b" "r' = r2\<lparr>head := head r + (len + 4)\<rparr>"
    by (auto simp: Write_def Let_def split: sum.splits)
  from WriteRaw_header [OF w1] WriteRaw_header [OF w2] res False show ?thesis
    by (simp add: not_less)
qed

lemma Read_cases:
  assumes "Read r out max_len = Inr (n, out', r')"
  shows "r' = r \<or> (\<exists>L. r' = r\<lparr>tail := tail r + L + 4\<rparr> \<and> L + 4 \<le> head r - tail r)"
  using assms
  by (auto simp: Read_def Let_def not_less split: if_splits sum.splits)

lemma occ_add:
  fixes occ cap t :: u32
  assumes "occ \<le> cap" "t \<le> cap - occ"
  shows "occ + t \<le> cap \<and> unat (occ + t) = unat occ + unat t"
  using assms by unat_arith

lemma reachable_occupancy: "reachable r \<Longrightarrow> head r - tail r \<le> capacity r"
proof (induction rule: reachable.induct)
  case (reach_init hdr bytes total_size)
  show ?case by (simp add: ByteRingBuffer_new_def Let_def)
next
  case (reach_attach r total_size)
  then show ?case by (simp add: ByteRingBuffer_new_def Let_def RingHeader.truncate_def)
next
  case (reach_write r src len b r')
  from Write_cases [OF reach_write(2)]
  have f: "tail r' = tail r" "capacity r' = capacity r"
    and c: "if b then head r' = head r + (len + 4) \<and> len + 4 \<le> WriteableBytes r else r' = r"
    by simp_all
  show ?case
  proof (cases b)
    case True
    with c have h: "head r' = head r + (len + 4)" and g: "len + 4 \<le> capacity r - (head r - tail r)"
      by (simp_all add: WriteableBytes_def)
    from occ_add [OF reach_write.IH g] have "(head r - tail r) + (len + 4) \<le> capacity r"
      by simp
    moreover have "head r' - tail r' = (head r - tail r) + (len + 4)"
      unfolding h f(1) by simp
    ultimately show ?thesis unfolding f(2) by (simp only:)
  next
    case False
    with c reach_write.IH show ?thesis by simp
  qed
next
  case (reach_read r out max_len n out' r')
  from Read_cases [OF reach_read(2)] show ?case
  proof
    assume "r' = r"
    with reach_read.IH show ?thesis by simp
  next
    assume "\<exists>L. r' = r\<lparr>tail := tail r + L + 4\<rparr> \<and> L + 4 \<le> head r - tail r"
    then obtain L where r': "r' = r\<lparr>tail := tail r + L + 4\<rparr>" and l: "L + 4 \<le> head r - tail r"
      by blast
    have "head r' - tail r' = (head r - tail r) - (L + 4)"
      unfolding r' by simp
    also have "\<dots> \<le> head r - tail r"
      using l by (rule word_sub_le)
    also note reach_read.IH
    finally show ?thesis unfolding r' by simp
  qed
qed

text \<open>
  C4. In every state reached from the producer-initialised region by \<open>Write\<close> and
  \<open>Read\<close> calls, \<open>head - tail\<close> (32-bit unsigned) is at most the capacity. A \<open>Write\<close>
  that returns true moves head forward by \<open>len + 4\<close> and leaves tail, raising the
  occupancy by exactly that much and not beyond the capacity; a \<open>Read\<close> leaves head and
  moves tail forward by no more than the occupancy.
\<close>

theorem occupancy_invariant:
  assumes "reachable r"
  shows "head r - tail r \<le> capacity r \<and>
    (\<forall>src len r'. Write r src len = Inr (True, r') \<longrightarrow>
       head r' = head r + (len + 4) \<and> tail r' = tail r \<and>
       unat (head r' - tail r') = unat (head r - tail r) + unat (len + 4) \<and>
       head r' - tail r' \<le> capacity r') \<and>
    (\<forall>out max_len n out' r'. Read r out max_len = Inr (n, out', r') \<longrightarrow>
       head r' = head r \<and> tail r' - tail r \<le> head r - tail r \<and>
       head r' - tail r' \<le> capacity r')"
proof (intro conjI allI impI)
  show inv: "head r - tail r \<le> capacity r"
    using assms by (rule reachable_occupancy)
  fix src len r'
  assume w: "Write r src len = Inr (True, r')"
  from Write_cases [OF w]
  have f: "tail r' = tail r" and h: "head r' = head r + (len + 4)"
    and g: "len + 4 \<le> capacity r - (head r - tail r)"
    by (simp_all add: WriteableBytes_def)
  show "head r' = head r + (len + 4)" by (fact h)
  show "tail r' = tail r" by (fact f)
  have eq: "head r' - tail r' = (head r - tail r) + (len + 4)"
    unfolding h f by simp
  from occ_add [OF inv g] show "unat (head r' - tail r') = unat (head r - tail r) + unat (len + 4)"
    unfolding eq by simp
  from assms w have "reachable r'" by (rule reach_write)
  then show "head r' - tail r' \<le> capacity r'" by (rule reachable_occupancy)
next
  fix out max_len n out' r'
  assume rd: "Read r out max_len = Inr (n, out', r')"
  from Read_cases [OF rd]
  show "head r' = head r" by auto
  from Read_cases [OF rd]
  show "tail r' - tail r \<le> head r - tail r"
  proof
    assume "r' = r"
    then show ?thesis by simp
  next
    assume "\<exists>L. r' = r\<lparr>tail := tail r + L + 4\<rparr> \<and> L + 4 \<le> head r - tail r"
    then obtain L where r': "r' = r\<lparr>tail := tail r + L + 4\<rparr>" and l: "L + 4 \<le> head r - tail r"
      by blast
    have "tail r' - tail r = L + 4" unfolding r' by simp
    with l show ?thesis by simp
  qed
  from assms rd have "reachable r'" by (rule reach_read)
  then show "head r' - tail r' \<le> capacity r'" by (rule reachable_occupancy)
qed

theorem occupancy_invariant_witness:
  "reachable ring16 \<and> head ring16 - tail ring16 \<le> capacity ring16 \<and>
   Write ring16 hello_world 12 =
     Inr (True, ring16\<lparr>head := 16, m_data := 12 # 0 # 0 # 0 # hello_world\<rparr>) \<and>
   head (ring16\<lparr>head := 16, m_data := 12 # 0 # 0 # 0 # hello_world\<rparr>) = head ring16 + (12 + 4) \<and>
   unat (head (ring16\<lparr>head := 16, m_data := 12 # 0 # 0 # 0 # hello_world\<rparr>) -
         tail (ring16\<lparr>head := 16, m_data := 12 # 0 # 0 # 0 # hello_world\<rparr>)) = 16 \<and>
   head (ring16\<lparr>head := 16, m_data := 12 # 0 # 0 # 0 # hello_world\<rparr>) -
     tail (ring16\<lparr>head := 16, m_data := 12 # 0 # 0 # 0 # hello_world\<rparr>)
     \<le> capacity (ring16\<lparr>head := 16, m_data := 12 # 0 # 0 # 0 # hello_world\<rparr>)"
proof -
  let ?r' = "ring16\<lparr>head := 16, m_data := 12 # 0 # 0 # 0 # hello_world\<rparr>"
  have r: "reachable ring16"
    unfolding ring16_def by (rule reach_init)
  note inv = occupancy_invariant [OF r]
  from inv have a: "head ring16 - tail ring16 \<le> capacity ring16"
    by blast
  from inv ring16_write_hello_world
  have b: "head ?r' = head ring16 + (12 + 4)"
    and c: "unat (head ?r' - tail ?r') = unat (head ring16 - tail ring16) + unat (12 + 4 :: u32)"
    and d: "head ?r' - tail ?r' \<le> capacity ?r'"
    by blast+
  have e: "unat (head ring16 - tail ring16) + unat (12 + 4 :: u32) = 16"
    by (simp add: ring16_eq)
  from r a b c d e ring16_write_hello_world show ?thesis
    by simp
qed

section \<open>Zero-length payloads\<close>

text \<open>
  C3. \<open>Write\<close> has no check for a length of 0. On the empty 16-byte ring,
  \<open>Write(data, 0)\<close> returns true, stores a zero length prefix and moves head to 4.
  \<open>Read\<close> takes a zero prefix for "no frame", so it then returns 0 without moving tail.
\<close>

theorem Write_zero_length_accepted:
  "Write ring16 [] 0 =
     Inr (True, ring16\<lparr>head := 4,
       m_data := [0, 0, 0, 0, 0xAA, 0xAA, 0xAA, 0xAA,
                  0xAA, 0xAA, 0xAA, 0xAA, 0xAA, 0xAA, 0xAA, 0xAA]\<rparr>) \<and>
   Read (ring16\<lparr>head := 4,
       m_data := [0, 0, 0, 0, 0xAA, 0xAA, 0xAA, 0xAA,
                  0xAA, 0xAA, 0xAA, 0xAA, 0xAA, 0xAA, 0xAA, 0xAA]\<rparr>) [1, 2, 3, 4] 4 =
     Inr (0, [1, 2, 3, 4], ring16\<lparr>head := 4,
       m_data := [0, 0, 0, 0, 0xAA, 0xAA, 0xAA, 0xAA,
                  0xAA, 0xAA, 0xAA, 0xAA, 0xAA, 0xAA, 0xAA, 0xAA]\<rparr>)"
  by (simp add: ring16_eq ring_eval)

section \<open>Payloads larger than the ring\<close>

text \<open>
  C7. For \<open>len = 2^32 - 4\<close> the sum \<open>len + 4\<close> is 0 in 32 bits, so the free-space
  check of \<open>Write\<close> passes in every state. On the fresh 2 GiB ring \<open>Write\<close> then returns
  true: it has overwritten the whole data area, and head is where it was. On the fresh
  16-byte ring the copy that follows the check leaves the data area.
\<close>

theorem Write_length_overflow_accepted:
  "reachable ring_2G \<and> capacity ring_2G - 4 < 4294967292 \<and>
   Write ring_2G (replicate 4294967292 65) 4294967292 =
     Inr (True, ring_2G\<lparr>m_data := replicate 2147483648 65\<rparr>) \<and>
   reachable ring16 \<and> capacity ring16 - 4 < 4294967292 \<and>
   Write ring16 src 4294967292 = Inl OutOfBounds"
proof -
  have "reachable ring_2G" "reachable ring16"
    unfolding ring_2G_def ring16_def by (rule reach_init)+
  moreover have "Write ring_2G (replicate 4294967292 65) 4294967292 =
      Inr (True, ring_2G\<lparr>m_data := replicate 2147483648 65\<rparr>)"
    by (simp add: ring_2G_eq ring_eval)
  moreover have "Write ring16 src 4294967292 = Inl OutOfBounds"
    by (simp add: ring16_eq ring_eval)
  moreover have "capacity ring_2G - 4 < 4294967292" "capacity ring16 - 4 < 4294967292"
    by (simp_all add: ring_2G_eq ring16_eq)
  ultimately show ?thesis by blast
qed

text \<open>
  Short of that overflow the bound holds: in every reachable state, a length with
  \<open>len + 4\<close> above the capacity and below \<open>2^32\<close> is refused.
\<close>

lemma Write_oversized_rejected:
  assumes "reachable r" and "unat (capacity r) < unat len + 4" and "unat len + 4 < 2 ^ 32"
  shows "Write r src len = Inr (False, r)"
proof -
  from assms(1) have "head r - tail r \<le> capacity r"
    by (rule reachable_occupancy)
  then have "unat (capacity r - (head r - tail r)) = unat (capacity r) - unat (head r - tail r)"
    by (rule unat_sub)
  then have "unat (WriteableBytes r) \<le> unat (capacity r)"
    unfolding WriteableBytes_def by simp
  moreover have "unat (len + 4) = unat len + 4"
    using assms(3) by (simp add: unat_word_ariths)
  ultimately have "WriteableBytes r < len + 4"
    unfolding word_less_nat_alt using assms(2) by simp
  then show ?thesis by (simp add: Write_def)
qed

section \<open>Round trips\<close>

text \<open>
  The ring is a queue of frames: a \<open>Write\<close> that returns true appends the payload's
  frame to what the ring holds, a \<open>Read\<close> with a large enough buffer delivers the oldest
  payload and removes its frame. Positions are 32-bit and wrap; offsets wrap at the
  capacity.
\<close>

lemma le_word_le_bytes: "le_word (le_bytes w) = w"
proof (rule bit_eqI)
  fix n
  assume "possible_bit TYPE(u32) n"
  then have n: "n < 32" by (simp add: possible_bit_word)
  consider "n < 8" | "8 \<le> n" "n < 16" | "16 \<le> n" "n < 24" | "24 \<le> n"
    by linarith
  then show "bit (le_word (le_bytes w)) n \<longleftrightarrow> bit w n"
    using n
    by cases
      (auto simp: le_bytes_def bit_or_iff bit_push_bit_iff bit_ucast_iff bit_drop_bit_eq
        possible_bit_word)
qed

lemma length_le_bytes: "length (le_bytes w) = 4"
  by (simp add: le_bytes_def)

lemma ring_ok_offset:
  assumes "ring_ok r"
  shows "unat (pos AND m_mask r) = unat pos mod unat (capacity r)"
proof -
  from assms obtain k where k: "k < 32" "capacity r = 2 ^ k" and m: "m_mask r = capacity r - 1"
    unfolding ring_ok_def by blast
  have "m_mask r = mask k"
    unfolding m k by (simp add: mask_eq_exp_minus_1)
  then have "unat (pos AND m_mask r) = unat (take_bit k pos)"
    by (simp add: take_bit_eq_mask)
  also have "\<dots> = take_bit k (unat pos)"
    by (rule unsigned_take_bit_eq)
  also have "\<dots> = unat pos mod 2 ^ k"
    by (rule take_bit_eq_mod)
  also have "2 ^ k = unat (capacity r)"
    using k by (simp only: unat_pow2)
  finally show ?thesis .
qed

lemma ring_ok_cap_pos:
  assumes "ring_ok r"
  shows "0 < unat (capacity r)" "unat (capacity r) dvd 2 ^ 32"
proof -
  from assms obtain k where k: "k < 32" "capacity r = 2 ^ k"
    unfolding ring_ok_def by blast
  then have c: "unat (capacity r) = 2 ^ k" by (simp add: unat_pow2)
  show "0 < unat (capacity r)" unfolding c by simp
  have "(2::nat) ^ k dvd 2 ^ 32"
    using k(1) by (intro le_imp_power_dvd) simp
  then show "unat (capacity r) dvd 2 ^ 32" unfolding c .
qed

lemma unat_add_mod_cap:
  fixes a b :: u32
  assumes "c dvd 2 ^ 32"
  shows "unat (a + b) mod c = (unat a + unat b) mod c"
proof -
  have "unat (a + b) = (unat a + unat b) mod 2 ^ 32"
    by (simp add: unat_word_ariths)
  then show ?thesis
    using assms by (simp add: mod_mod_cancel)
qed

lemma mod_wrap_once:
  fixes a c :: nat
  assumes "c \<le> a" "a < 2 * c"
  shows "a mod c = a - c"
proof -
  have "a mod c = (a - c) mod c" using assms(1) by (simp add: le_mod_geq)
  also have "\<dots> = a - c" using assms by simp
  finally show ?thesis .
qed

lemma splice_nth:
  assumes "doff + n \<le> length dst" "soff + n \<le> length src" "j < length dst"
  shows "(take doff dst @ take n (drop soff src) @ drop (doff + n) dst) ! j =
         (if doff \<le> j \<and> j < doff + n then src ! (soff + (j - doff)) else dst ! j)"
proof -
  have m1: "min (length dst) doff = doff" using assms(1) by simp
  have m2: "min (length src - soff) n = n" using assms(2) by simp
  consider "j < doff" | "doff \<le> j" "j < doff + n" | "doff + n \<le> j" by linarith
  then show ?thesis
  proof cases
    case 1
    then show ?thesis by (simp add: nth_append m1)
  next
    case 2
    then have "j - doff < n" by linarith
    moreover have "soff \<le> length src" using assms(2) by linarith
    moreover have "soff + j - doff = soff + (j - doff)" using 2 by linarith
    ultimately show ?thesis using 2 by (simp add: nth_append m1 m2)
  next
    case 3
    then have a: "\<not> j < doff" "\<not> j - doff < n" by linarith+
    have "(take doff dst @ take n (drop soff src) @ drop (doff + n) dst) ! j =
          drop (doff + n) dst ! (j - doff - n)"
      using a by (simp add: nth_append m1 m2)
    also have "\<dots> = dst ! (doff + n + (j - doff - n))"
      using assms(1) by (intro nth_drop)
    also have "doff + n + (j - doff - n) = j" using 3 by linarith
    finally show ?thesis using 3 by simp
  qed
qed

lemma memcpy_nth:
  assumes "doff + n \<le> length dst" "soff + n \<le> length src"
  obtains d' where "memcpy dst doff src soff n = Inr d'" "length d' = length dst"
    "\<And>j. j < length dst \<Longrightarrow>
       d' ! j = (if doff \<le> j \<and> j < doff + n then src ! (soff + (j - doff)) else dst ! j)"
proof
  let ?d = "take doff dst @ take n (drop soff src) @ drop (doff + n) dst"
  show "memcpy dst doff src soff n = Inr ?d"
    using assms by (simp add: memcpy_def)
  show "length ?d = length dst"
    using assms by simp
  fix j assume "j < length dst"
  with assms show "?d ! j = (if doff \<le> j \<and> j < doff + n then src ! (soff + (j - doff)) else dst ! j)"
    by (rule splice_nth)
qed

text \<open>A copy of \<open>n\<close> bytes to ring offset \<open>off\<close> that does not reach the end of the ring.\<close>

lemma copy_straight:
  assumes fit: "off + n \<le> c" and cd: "c \<le> length d" and s: "n \<le> length src"
  obtains d' where "memcpy d off src 0 n = Inr d'" "length d' = length d"
    "\<And>k. k < n \<Longrightarrow> d' ! ((off + k) mod c) = src ! k"
    "\<And>j. j < length d \<Longrightarrow> (\<And>k. k < n \<Longrightarrow> j \<noteq> (off + k) mod c) \<Longrightarrow> d' ! j = d ! j"
proof -
  have b1: "off + n \<le> length d" using fit cd by linarith
  have b2: "0 + n \<le> length src" using s by simp
  from memcpy_nth [OF b1 b2] obtain d' where
    m: "memcpy d off src 0 n = Inr d'" and l: "length d' = length d"
    and nth: "\<And>j. j < length d \<Longrightarrow>
      d' ! j = (if off \<le> j \<and> j < off + n then src ! (0 + (j - off)) else d ! j)"
    by blast
  have hit: "d' ! ((off + k) mod c) = src ! k" if "k < n" for k
  proof -
    have lt: "off + k < c" using that fit by linarith
    then have i: "(off + k) mod c = off + k" by (rule mod_less)
    have "off + k < length d" using lt cd by linarith
    from nth [OF this] that show ?thesis unfolding i by simp
  qed
  have miss: "d' ! j = d ! j" if j: "j < length d"
    and no: "\<And>k. k < n \<Longrightarrow> j \<noteq> (off + k) mod c" for j
  proof -
    have "\<not> (off \<le> j \<and> j < off + n)"
    proof
      assume a: "off \<le> j \<and> j < off + n"
      then have k: "j - off < n" by linarith
      have "off + (j - off) = j" using a by linarith
      moreover have "j < c" using a fit by linarith
      ultimately have "(off + (j - off)) mod c = j" by simp
      with no [OF k] show False by simp
    qed
    with nth [OF j] show ?thesis by simp
  qed
  from m l hit miss show thesis by (rule that)
qed

text \<open>A copy that reaches the end of the ring and goes on from offset 0.\<close>

lemma copy_wrapped:
  assumes lt: "off < c" and fl: "c - off < n" and nc: "n \<le> c"
    and cd: "c \<le> length d" and s: "n \<le> length src"
  obtains d1 d2 where "memcpy d off src 0 (c - off) = Inr d1"
    "memcpy d1 0 src (c - off) (n - (c - off)) = Inr d2" "length d2 = length d"
    "\<And>k. k < n \<Longrightarrow> d2 ! ((off + k) mod c) = src ! k"
    "\<And>j. j < length d \<Longrightarrow> (\<And>k. k < n \<Longrightarrow> j \<noteq> (off + k) mod c) \<Longrightarrow> d2 ! j = d ! j"
proof -
  define f where "f = c - off"
  have cf: "off + f = c" using lt unfolding f_def by simp
  have fl': "f < n" using fl unfolding f_def .
  have b1: "off + f \<le> length d" using cf cd by simp
  have b2: "0 + f \<le> length src" using fl' s by simp
  from memcpy_nth [OF b1 b2] obtain d1 where
    m1: "memcpy d off src 0 f = Inr d1" and l1: "length d1 = length d"
    and nth1: "\<And>j. j < length d \<Longrightarrow>
      d1 ! j = (if off \<le> j \<and> j < off + f then src ! (0 + (j - off)) else d ! j)"
    by blast
  have b3: "0 + (n - f) \<le> length d1" using nc cd l1 by linarith
  have b4: "f + (n - f) \<le> length src" using fl' s by simp
  from memcpy_nth [OF b3 b4] obtain d2 where
    m2: "memcpy d1 0 src f (n - f) = Inr d2" and l2: "length d2 = length d1"
    and nth2: "\<And>j. j < length d1 \<Longrightarrow>
      d2 ! j = (if 0 \<le> j \<and> j < 0 + (n - f) then src ! (f + (j - 0)) else d1 ! j)"
    by blast
  have hit: "d2 ! ((off + k) mod c) = src ! k" if k: "k < n" for k
  proof (cases "k < f")
    case True
    then have lt': "off + k < c" using cf by linarith
    then have i: "(off + k) mod c = off + k" by (rule mod_less)
    have jl: "off + k < length d" using lt' cd by linarith
    then have jl1: "off + k < length d1" using l1 by simp
    have "\<not> off + k < n - f" using nc cf by linarith
    with nth2 [OF jl1] have "d2 ! (off + k) = d1 ! (off + k)" by simp
    also from nth1 [OF jl] True have "\<dots> = src ! k" by simp
    finally show ?thesis unfolding i .
  next
    case False
    then have ge: "c \<le> off + k" using cf by linarith
    have "off + k < 2 * c" using k nc lt by linarith
    with ge have "(off + k) mod c = off + k - c" by (rule mod_wrap_once)
    also have "\<dots> = k - f" using cf False by linarith
    finally have i: "(off + k) mod c = k - f" .
    have kf: "k - f < n - f" using k False by linarith
    then have "k - f < length d1" using b3 by linarith
    from nth2 [OF this] kf have "d2 ! (k - f) = src ! (f + (k - f))" by simp
    also have "f + (k - f) = k" using False by simp
    finally show ?thesis unfolding i .
  qed
  have miss: "d2 ! j = d ! j" if j: "j < length d"
    and no: "\<And>k. k < n \<Longrightarrow> j \<noteq> (off + k) mod c" for j
  proof -
    have n1: "\<not> j < n - f"
    proof
      assume a: "j < n - f"
      then have k: "j + f < n" by linarith
      have ge: "c \<le> off + (j + f)" using cf by linarith
      have "off + (j + f) < 2 * c" using k nc lt by linarith
      with ge have "(off + (j + f)) mod c = off + (j + f) - c" by (rule mod_wrap_once)
      also have "\<dots> = j" using cf by linarith
      finally have "(off + (j + f)) mod c = j" .
      with no [OF k] show False by simp
    qed
    have n2: "\<not> (off \<le> j \<and> j < off + f)"
    proof
      assume a: "off \<le> j \<and> j < off + f"
      then have k: "j - off < n" using fl' by linarith
      have "off + (j - off) = j" using a by linarith
      moreover have "j < c" using a cf by linarith
      ultimately have "(off + (j - off)) mod c = j" by simp
      with no [OF k] show False by simp
    qed
    have j1: "j < length d1" using j l1 by simp
    from nth2 [OF j1] n1 have "d2 ! j = d1 ! j" by simp
    also from nth1 [OF j] n2 have "\<dots> = d ! j" by simp
    finally show ?thesis .
  qed
  have l: "length d2 = length d" using l1 l2 by simp
  from m1 m2 l hit miss show thesis unfolding f_def by (rule that)
qed

lemma ring_ok_first:
  assumes "ring_ok r"
  shows "unat (capacity r - (pos AND m_mask r)) = unat (capacity r) - unat pos mod unat (capacity r)"
    and "unat pos mod unat (capacity r) < unat (capacity r)"
proof -
  show lt: "unat pos mod unat (capacity r) < unat (capacity r)"
    using ring_ok_cap_pos(1) [OF assms] by (rule mod_less_divisor)
  then have "unat (pos AND m_mask r) \<le> unat (capacity r)"
    unfolding ring_ok_offset [OF assms] by (rule less_imp_le)
  then have "pos AND m_mask r \<le> capacity r"
    by (simp only: word_le_nat_alt)
  then have "unat (capacity r - (pos AND m_mask r)) = unat (capacity r) - unat (pos AND m_mask r)"
    by (rule unat_sub)
  then show "unat (capacity r - (pos AND m_mask r)) = unat (capacity r) - unat pos mod unat (capacity r)"
    unfolding ring_ok_offset [OF assms] .
qed

lemma WriteRaw_nth:
  assumes ok: "ring_ok r" and n: "unat len \<le> unat (capacity r)" and s: "unat len \<le> length src"
  obtains d' where "WriteRaw r pos src len = Inr (r\<lparr>m_data := d'\<rparr>)"
    "length d' = length (m_data r)"
    "\<And>k. k < unat len \<Longrightarrow> d' ! ((unat pos + k) mod unat (capacity r)) = src ! k"
    "\<And>j. j < length (m_data r) \<Longrightarrow>
       (\<And>k. k < unat len \<Longrightarrow> j \<noteq> (unat pos + k) mod unat (capacity r)) \<Longrightarrow>
       d' ! j = m_data r ! j"
proof -
  define c where "c = unat (capacity r)"
  define off where "off = unat pos mod c"
  have off: "unat (pos AND m_mask r) = off"
    unfolding off_def c_def by (rule ring_ok_offset [OF ok])
  have first: "unat (capacity r - (pos AND m_mask r)) = c - off" and lt: "off < c"
    unfolding off_def c_def by (rule ring_ok_first [OF ok])+
  have cd: "c \<le> length (m_data r)"
    using ok unfolding ring_ok_def c_def by blast
  have idx: "(unat pos + k) mod c = (off + k) mod c" for k
    unfolding off_def by (simp add: mod_add_left_eq)
  have nc: "unat len \<le> c" using n unfolding c_def .
  have le: "len \<le> capacity r - (pos AND m_mask r) \<longleftrightarrow> unat len \<le> c - off"
    unfolding word_le_nat_alt first ..
  show thesis
  proof (cases "unat len \<le> c - off")
    case True
    then have fit: "off + unat len \<le> c" using lt by linarith
    from copy_straight [OF fit cd s] obtain d' where
      m: "memcpy (m_data r) off src 0 (unat len) = Inr d'" and l: "length d' = length (m_data r)"
      and hit: "\<And>k. k < unat len \<Longrightarrow> d' ! ((off + k) mod c) = src ! k"
      and miss: "\<And>j. j < length (m_data r) \<Longrightarrow>
        (\<And>k. k < unat len \<Longrightarrow> j \<noteq> (off + k) mod c) \<Longrightarrow> d' ! j = m_data r ! j"
      by blast
    have w: "WriteRaw r pos src len = Inr (r\<lparr>m_data := d'\<rparr>)"
      unfolding WriteRaw_def Let_def le off using True m by simp
    have hit': "d' ! ((unat pos + k) mod c) = src ! k" if "k < unat len" for k
      unfolding idx using that by (rule hit)
    have miss': "d' ! j = m_data r ! j" if "j < length (m_data r)"
      and "\<And>k. k < unat len \<Longrightarrow> j \<noteq> (unat pos + k) mod c" for j
      using that unfolding idx by (rule miss)
    from w l hit' miss' show thesis
      unfolding c_def by (rule that)
  next
    case False
    then have fl: "c - off < unat len" by simp
    from copy_wrapped [OF lt fl nc cd s] obtain d1 d2 where
      m1: "memcpy (m_data r) off src 0 (c - off) = Inr d1"
      and m2: "memcpy d1 0 src (c - off) (unat len - (c - off)) = Inr d2"
      and l: "length d2 = length (m_data r)"
      and hit: "\<And>k. k < unat len \<Longrightarrow> d2 ! ((off + k) mod c) = src ! k"
      and miss: "\<And>j. j < length (m_data r) \<Longrightarrow>
        (\<And>k. k < unat len \<Longrightarrow> j \<noteq> (off + k) mod c) \<Longrightarrow> d2 ! j = m_data r ! j"
      by blast
    have "capacity r - (pos AND m_mask r) \<le> len"
      unfolding word_le_nat_alt first using fl by (rule less_imp_le)
    then have "unat (len - (capacity r - (pos AND m_mask r))) =
        unat len - unat (capacity r - (pos AND m_mask r))"
      by (rule unat_sub)
    then have rest: "unat (len - (capacity r - (pos AND m_mask r))) = unat len - (c - off)"
      unfolding first .
    have w: "WriteRaw r pos src len = Inr (r\<lparr>m_data := d2\<rparr>)"
      unfolding WriteRaw_def Let_def le off rest first using False m1 m2 by simp
    have hit': "d2 ! ((unat pos + k) mod c) = src ! k" if "k < unat len" for k
      unfolding idx using that by (rule hit)
    have miss': "d2 ! j = m_data r ! j" if "j < length (m_data r)"
      and "\<And>k. k < unat len \<Longrightarrow> j \<noteq> (unat pos + k) mod c" for j
      using that unfolding idx by (rule miss)
    from w l hit' miss' show thesis
      unfolding c_def by (rule that)
  qed
qed

lemma ring_bytes_nth:
  assumes "n \<le> length dst" "j < length dst"
  shows "(map (\<lambda>k. d ! ((off + k) mod c)) [0..<n] @ drop n dst) ! j =
         (if j < n then d ! ((off + j) mod c) else dst ! j)"
proof (cases "j < n")
  case True
  then show ?thesis by (simp add: nth_append)
next
  case False
  then have "n + (j - n) = j" by simp
  with False assms show ?thesis by (simp add: nth_append)
qed

lemma read_straight:
  assumes fit: "off + n \<le> c" and cd: "c \<le> length d" and s: "n \<le> length dst"
  shows "memcpy dst 0 d off n = Inr (map (\<lambda>k. d ! ((off + k) mod c)) [0..<n] @ drop n dst)"
proof -
  have b1: "0 + n \<le> length dst" using s by simp
  have b2: "off + n \<le> length d" using fit cd by linarith
  from memcpy_nth [OF b1 b2] obtain r where
    m: "memcpy dst 0 d off n = Inr r" and l: "length r = length dst"
    and nth: "\<And>j. j < length dst \<Longrightarrow>
      r ! j = (if 0 \<le> j \<and> j < 0 + n then d ! (off + (j - 0)) else dst ! j)"
    by blast
  have "r = map (\<lambda>k. d ! ((off + k) mod c)) [0..<n] @ drop n dst"
  proof (rule nth_equalityI)
    show "length r = length (map (\<lambda>k. d ! ((off + k) mod c)) [0..<n] @ drop n dst)"
      using l s by simp
    fix j assume "j < length r"
    then have j: "j < length dst" using l by simp
    have "(off + j) mod c = off + j" if "j < n"
      using that fit by simp
    with nth [OF j] ring_bytes_nth [OF s j, of d off c]
    show "r ! j = (map (\<lambda>k. d ! ((off + k) mod c)) [0..<n] @ drop n dst) ! j"
      by simp
  qed
  with m show ?thesis by simp
qed

lemma read_wrapped:
  assumes lt: "off < c" and fl: "c - off < n" and nc: "n \<le> c"
    and cd: "c \<le> length d" and s: "n \<le> length dst"
  obtains dst1 where "memcpy dst 0 d off (c - off) = Inr dst1"
    "memcpy dst1 (c - off) d 0 (n - (c - off)) =
       Inr (map (\<lambda>k. d ! ((off + k) mod c)) [0..<n] @ drop n dst)"
proof -
  define f where "f = c - off"
  have cf: "off + f = c" using lt unfolding f_def by simp
  have fl': "f < n" using fl unfolding f_def .
  have b1: "0 + f \<le> length dst" using fl' s by simp
  have b2: "off + f \<le> length d" using cf cd by simp
  from memcpy_nth [OF b1 b2] obtain dst1 where
    m1: "memcpy dst 0 d off f = Inr dst1" and l1: "length dst1 = length dst"
    and nth1: "\<And>j. j < length dst \<Longrightarrow>
      dst1 ! j = (if 0 \<le> j \<and> j < 0 + f then d ! (off + (j - 0)) else dst ! j)"
    by blast
  have b3: "f + (n - f) \<le> length dst1" using fl' s l1 by simp
  have b4: "0 + (n - f) \<le> length d" using nc cd by linarith
  from memcpy_nth [OF b3 b4] obtain r where
    m2: "memcpy dst1 f d 0 (n - f) = Inr r" and l2: "length r = length dst1"
    and nth2: "\<And>j. j < length dst1 \<Longrightarrow>
      r ! j = (if f \<le> j \<and> j < f + (n - f) then d ! (0 + (j - f)) else dst1 ! j)"
    by blast
  have "r = map (\<lambda>k. d ! ((off + k) mod c)) [0..<n] @ drop n dst"
  proof (rule nth_equalityI)
    show "length r = length (map (\<lambda>k. d ! ((off + k) mod c)) [0..<n] @ drop n dst)"
      using l1 l2 s by simp
    fix j assume "j < length r"
    then have j: "j < length dst" and j1: "j < length dst1" using l1 l2 by simp_all
    have rhs: "(map (\<lambda>k. d ! ((off + k) mod c)) [0..<n] @ drop n dst) ! j =
         (if j < n then d ! ((off + j) mod c) else dst ! j)"
      using s j by (rule ring_bytes_nth)
    consider "j < f" | "f \<le> j" "j < n" | "n \<le> j" by linarith
    then show "r ! j = (map (\<lambda>k. d ! ((off + k) mod c)) [0..<n] @ drop n dst) ! j"
    proof cases
      case 1
      then have "(off + j) mod c = off + j" using cf by simp
      moreover have "j < n" using 1 fl' by linarith
      ultimately show ?thesis
        unfolding rhs using nth2 [OF j1] nth1 [OF j] 1 by simp
    next
      case 2
      then have ge: "c \<le> off + j" using cf by linarith
      have "off + j < 2 * c" using 2 nc lt by linarith
      with ge have "(off + j) mod c = off + j - c" by (rule mod_wrap_once)
      also have "\<dots> = j - f" using cf 2 by linarith
      finally have i: "(off + j) mod c = j - f" .
      have "j < f + (n - f)" using 2 by linarith
      then show ?thesis
        unfolding rhs i using nth2 [OF j1] 2 by simp
    next
      case 3
      then have "\<not> j < f + (n - f)" "\<not> j < f" "\<not> j < n" using fl' by linarith+
      then show ?thesis
        unfolding rhs using nth2 [OF j1] nth1 [OF j] by simp
    qed
  qed
  then have "memcpy dst1 f d 0 (n - f) = Inr (map (\<lambda>k. d ! ((off + k) mod c)) [0..<n] @ drop n dst)"
    using m2 by simp
  with m1 show thesis unfolding f_def by (rule that)
qed

lemma ReadRaw_bytes:
  assumes ok: "ring_ok r" and n: "unat len \<le> unat (capacity r)" and s: "unat len \<le> length dst"
  shows "ReadRaw r pos dst len =
    Inr (map (\<lambda>k. m_data r ! ((unat pos + k) mod unat (capacity r))) [0..<unat len] @
         drop (unat len) dst)"
proof -
  define c where "c = unat (capacity r)"
  define off where "off = unat pos mod c"
  have off: "unat (pos AND m_mask r) = off"
    unfolding off_def c_def by (rule ring_ok_offset [OF ok])
  have first: "unat (capacity r - (pos AND m_mask r)) = c - off" and lt: "off < c"
    unfolding off_def c_def by (rule ring_ok_first [OF ok])+
  have cd: "c \<le> length (m_data r)"
    using ok unfolding ring_ok_def c_def by blast
  have idx: "(unat pos + k) mod c = (off + k) mod c" for k
    unfolding off_def by (simp add: mod_add_left_eq)
  have nc: "unat len \<le> c" using n unfolding c_def .
  have le: "len \<le> capacity r - (pos AND m_mask r) \<longleftrightarrow> unat len \<le> c - off"
    unfolding word_le_nat_alt first ..
  have "ReadRaw r pos dst len =
    Inr (map (\<lambda>k. m_data r ! ((off + k) mod c)) [0..<unat len] @ drop (unat len) dst)"
  proof (cases "unat len \<le> c - off")
    case True
    then have fit: "off + unat len \<le> c" using lt by linarith
    from read_straight [OF fit cd s] True show ?thesis
      unfolding ReadRaw_def Let_def le off by simp
  next
    case False
    then have fl: "c - off < unat len" by simp
    from read_wrapped [OF lt fl nc cd s] obtain dst1 where
      m1: "memcpy dst 0 (m_data r) off (c - off) = Inr dst1"
      and m2: "memcpy dst1 (c - off) (m_data r) 0 (unat len - (c - off)) =
        Inr (map (\<lambda>k. m_data r ! ((off + k) mod c)) [0..<unat len] @ drop (unat len) dst)"
      by blast
    have "capacity r - (pos AND m_mask r) \<le> len"
      unfolding word_le_nat_alt first using fl by (rule less_imp_le)
    then have "unat (len - (capacity r - (pos AND m_mask r))) =
        unat len - unat (capacity r - (pos AND m_mask r))"
      by (rule unat_sub)
    then have rest: "unat (len - (capacity r - (pos AND m_mask r))) = unat len - (c - off)"
      unfolding first .
    show ?thesis
      unfolding ReadRaw_def Let_def le off rest first using False m1 m2 by simp
  qed
  then show ?thesis unfolding c_def [symmetric] idx .
qed

lemma mod_distinct:
  fixes t a b c :: nat
  assumes "a < b" "b - a < c"
  shows "(t + a) mod c \<noteq> (t + b) mod c"
proof
  assume "(t + a) mod c = (t + b) mod c"
  then have "(t + b) mod c = (t + a) mod c" by simp
  moreover have "t + a \<le> t + b" using assms(1) by simp
  ultimately have "c dvd (t + b) - (t + a)"
    by (simp add: mod_eq_dvd_iff_nat)
  then have "c dvd b - a" by simp
  moreover have "0 < b - a" using assms(1) by simp
  ultimately have "c \<le> b - a" by (intro dvd_imp_le)
  with assms(2) show False by simp
qed

lemma unat_of_nat_u32:
  assumes "n < 2 ^ 32"
  shows "unat (of_nat n :: u32) = n"
  using assms by (simp add: unat_of_nat)

lemma ring_ok_cap_le:
  assumes "ring_ok r"
  shows "unat (capacity r) \<le> 2 ^ 31"
proof -
  from assms obtain k where k: "k < 32" "capacity r = 2 ^ k"
    unfolding ring_ok_def by blast
  then have c: "unat (capacity r) = 2 ^ k" by (simp add: unat_pow2)
  have "k \<le> 31" using k(1) by simp
  then have "(2::nat) ^ k \<le> 2 ^ 31" by (rule power_increasing) simp
  then show ?thesis unfolding c .
qed

lemma frames_bytes_simps:
  "frames_bytes [] = []"
  "frames_bytes (p # ps) = le_bytes (of_nat (length p)) @ p @ frames_bytes ps"
  "frames_bytes (ps @ [p]) = frames_bytes ps @ le_bytes (of_nat (length p)) @ p"
  by (simp_all add: frames_bytes_def frame_bytes_def)

lemma head_pos:
  assumes "ring_ok r"
  shows "(unat (head r) + j) mod unat (capacity r) =
         (unat (tail r) + (unat (head r - tail r) + j)) mod unat (capacity r)"
proof -
  let ?c = "unat (capacity r)"
  have "unat (tail r + (head r - tail r)) mod ?c = (unat (tail r) + unat (head r - tail r)) mod ?c"
    using ring_ok_cap_pos(2) [OF assms] by (rule unat_add_mod_cap)
  then have "unat (head r) mod ?c = (unat (tail r) + unat (head r - tail r)) mod ?c"
    by simp
  then have "(unat (head r) + j) mod ?c = (unat (tail r) + unat (head r - tail r) + j) mod ?c"
    by (rule mod_add_cong) simp
  then show ?thesis by (simp add: add.assoc)
qed

lemma pos_add:
  fixes pos a :: u32
  assumes "ring_ok r"
  shows "(unat (pos + a) + j) mod unat (capacity r) = (unat pos + (unat a + j)) mod unat (capacity r)"
proof -
  let ?c = "unat (capacity r)"
  have "unat (pos + a) mod ?c = (unat pos + unat a) mod ?c"
    using ring_ok_cap_pos(2) [OF assms] by (rule unat_add_mod_cap)
  then have "(unat (pos + a) + j) mod ?c = (unat pos + unat a + j) mod ?c"
    by (rule mod_add_cong) simp
  then show ?thesis by (simp add: add.assoc)
qed

lemma ring_holds_Write_room:
  assumes h: "ring_holds r ps" and ne: "p \<noteq> []"
    and fits: "length p + 4 \<le> unat (WriteableBytes r)"
  obtains r' where "Write r p (of_nat (length p)) = Inr (True, r')" "ring_holds r' (ps @ [p])"
proof -
  define c where "c = unat (capacity r)"
  define t where "t = unat (tail r)"
  define S where "S = frames_bytes ps"
  define n where "n = length p"
  define len :: u32 where "len = of_nat (length p)"
  define u where "u = length S"
  from h have ok: "ring_ok r" and occ: "unat (head r - tail r) = u" and oc: "u \<le> c"
    and bytes: "\<And>k. k < u \<Longrightarrow> m_data r ! ((t + k) mod c) = S ! k"
    and nes: "\<forall>p\<in>set ps. p \<noteq> []"
    unfolding ring_holds_def c_def t_def S_def u_def by blast+
  have cpos: "0 < c" unfolding c_def by (rule ring_ok_cap_pos(1) [OF ok])
  have cd: "c \<le> length (m_data r)" using ok unfolding ring_ok_def c_def by blast
  have c31: "c \<le> 2 ^ 31" unfolding c_def by (rule ring_ok_cap_le [OF ok])
  have "head r - tail r \<le> capacity r"
    unfolding word_le_nat_alt occ using oc unfolding c_def .
  then have "unat (capacity r - (head r - tail r)) = unat (capacity r) - unat (head r - tail r)"
    by (rule unat_sub)
  then have free: "unat (WriteableBytes r) = c - u"
    unfolding WriteableBytes_def occ c_def .
  have room: "n + 4 \<le> c - u"
    using fits unfolding free n_def .
  have small: "length p + 4 < 2 ^ 32"
    using room c31 unfolding n_def by simp
  have ulen: "unat len = n"
    unfolding len_def n_def using small by (intro unat_of_nat_u32) simp
  have utot: "unat (len + 4) = n + 4"
    using small ulen unfolding n_def by (simp add: unat_word_ariths)
  have guard: "\<not> WriteableBytes r < len + 4"
    unfolding word_less_nat_alt free utot using room by simp
  have four: "unat (4 :: u32) \<le> unat (capacity r)"
    using room unfolding c_def by simp
  have lb: "unat (4 :: u32) \<le> length (le_bytes len)"
    by (simp add: length_le_bytes)
  from WriteRaw_nth [OF ok four lb, of "head r"] obtain d1 where
    w1: "WriteRaw r (head r) (le_bytes len) 4 = Inr (r\<lparr>m_data := d1\<rparr>)"
    and l1: "length d1 = length (m_data r)"
    and hit1: "\<And>k. k < 4 \<Longrightarrow> d1 ! ((unat (head r) + k) mod c) = le_bytes len ! k"
    and miss1: "\<And>j. j < length (m_data r) \<Longrightarrow>
       (\<And>k. k < 4 \<Longrightarrow> j \<noteq> (unat (head r) + k) mod c) \<Longrightarrow> d1 ! j = m_data r ! j"
    unfolding c_def by auto
  let ?r1 = "r\<lparr>m_data := d1\<rparr>"
  have ok1: "ring_ok ?r1" using ok l1 unfolding ring_ok_def by simp
  have n1: "unat len \<le> unat (capacity ?r1)" using room ulen unfolding c_def by simp
  have s1: "unat len \<le> length p" using ulen unfolding n_def by simp
  from WriteRaw_nth [OF ok1 n1 s1, of "head r + 4"] obtain d2 where
    w2: "WriteRaw ?r1 (head r + 4) p len = Inr (?r1\<lparr>m_data := d2\<rparr>)"
    and l2: "length d2 = length d1"
    and hit2: "\<And>k. k < n \<Longrightarrow> d2 ! ((unat (head r + 4) + k) mod c) = p ! k"
    and miss2: "\<And>j. j < length d1 \<Longrightarrow>
       (\<And>k. k < n \<Longrightarrow> j \<noteq> (unat (head r + 4) + k) mod c) \<Longrightarrow> d2 ! j = d1 ! j"
    unfolding c_def ulen by auto
  define r' where "r' = r\<lparr>m_data := d2, head := head r + (len + 4)\<rparr>"
  note r' = r'_def
  have w: "Write r p (of_nat (length p)) = Inr (True, r')"
    using guard w1 w2 unfolding Write_def Let_def len_def [symmetric] r' by simp
  have p1: "(unat (head r) + j) mod c = (t + (u + j)) mod c" for j
    using head_pos [OF ok, of j] unfolding c_def t_def occ .
  have p2: "(unat (head r + 4) + j) mod c = (t + (u + 4 + j)) mod c" for j
  proof -
    have "(unat (head r + 4) + j) mod c = (unat (head r) + (unat (4::u32) + j)) mod c"
      unfolding c_def by (rule pos_add [OF ok])
    also have "\<dots> = (t + (u + (4 + j))) mod c"
      using p1 [of "4 + j"] by simp
    finally show ?thesis by (simp add: add.assoc)
  qed
  have xlt: "(t + k) mod c < length (m_data r)" for k
  proof -
    have "(t + k) mod c < c" using cpos by (rule mod_less_divisor)
    with cd show ?thesis by linarith
  qed
  have old: "d2 ! ((t + k) mod c) = S ! k" if k: "k < u" for k
  proof -
    have a: "(t + k) mod c \<noteq> (unat (head r + 4) + j) mod c" if "j < n" for j
      unfolding p2 using k that room by (intro mod_distinct) linarith+
    have b: "(t + k) mod c \<noteq> (unat (head r) + j) mod c" if "j < 4" for j
      unfolding p1 using k that room by (intro mod_distinct) linarith+
    have "d2 ! ((t + k) mod c) = d1 ! ((t + k) mod c)"
      using xlt [of k] a unfolding l1 [symmetric] by (rule miss2)
    also have "\<dots> = m_data r ! ((t + k) mod c)"
      using xlt [of k] b by (rule miss1)
    also have "\<dots> = S ! k" using k by (rule bytes)
    finally show ?thesis .
  qed
  have pre: "d2 ! ((t + (u + j)) mod c) = le_bytes len ! j" if j: "j < 4" for j
  proof -
    have a: "(t + (u + j)) mod c \<noteq> (unat (head r + 4) + i) mod c" if "i < n" for i
      unfolding p2 using j that room by (intro mod_distinct) linarith+
    have "d2 ! ((t + (u + j)) mod c) = d1 ! ((t + (u + j)) mod c)"
      using xlt [of "u + j"] a unfolding l1 [symmetric] by (rule miss2)
    also have "\<dots> = le_bytes len ! j"
      using hit1 [OF j] unfolding p1 .
    finally show ?thesis .
  qed
  have pay: "d2 ! ((t + (u + 4 + j)) mod c) = p ! j" if j: "j < n" for j
    using hit2 [OF j] unfolding p2 .
  have S': "frames_bytes (ps @ [p]) = S @ le_bytes len @ p"
    unfolding S_def len_def by (rule frames_bytes_simps)
  have lS': "length (frames_bytes (ps @ [p])) = u + 4 + n"
    unfolding S' u_def n_def by (simp add: length_le_bytes)
  have hd': "head r' = head r + (len + 4)" and tl': "tail r' = tail r"
    unfolding r' by simp_all
  have "head r' - tail r' = (head r - tail r) + (len + 4)"
    unfolding hd' tl' by (simp add: algebra_simps)
  then have "unat (head r' - tail r') = unat ((head r - tail r) + (len + 4))"
    by (rule arg_cong)
  also have "\<dots> = (u + (n + 4)) mod 2 ^ 32"
    using unat_word_ariths(1) [of "head r - tail r" "len + 4"] unfolding occ utot by simp
  also have "\<dots> = u + 4 + n"
  proof -
    have "u + (n + 4) < 2 ^ 32" using c31 room oc by simp
    then show ?thesis by simp
  qed
  finally have occ': "unat (head r' - tail r') = length (frames_bytes (ps @ [p]))"
    unfolding lS' .
  have ok': "ring_ok r'" using ok l1 l2 unfolding r' ring_ok_def by simp
  have cap': "length (frames_bytes (ps @ [p])) \<le> unat (capacity r')"
    unfolding lS' r' using room oc unfolding c_def by simp
  have bytes': "m_data r' ! ((unat (tail r') + k) mod unat (capacity r')) = frames_bytes (ps @ [p]) ! k"
    if k: "k < length (frames_bytes (ps @ [p]))" for k
  proof -
    have lhs: "m_data r' ! ((unat (tail r') + k) mod unat (capacity r')) = d2 ! ((t + k) mod c)"
      unfolding r' t_def c_def by simp
    have l4: "length (le_bytes len) = 4" by (rule length_le_bytes)
    consider "k < u" | "u \<le> k" "k < u + 4" | "u + 4 \<le> k" by linarith
    then show ?thesis
    proof cases
      case 1
      then have "(S @ le_bytes len @ p) ! k = S ! k"
        unfolding u_def by (simp add: nth_append)
      with old [OF 1] show ?thesis unfolding lhs S' by simp
    next
      case 2
      then have j: "k - u < 4" and e: "u + (k - u) = k" by linarith+
      have "(S @ le_bytes len @ p) ! k = le_bytes len ! (k - u)"
        using 2 j unfolding u_def by (simp add: nth_append l4)
      with pre [OF j] show ?thesis unfolding lhs S' e by simp
    next
      case 3
      then have j: "k - (u + 4) < n" and e: "u + 4 + (k - (u + 4)) = k"
        using k unfolding lS' by linarith+
      have "\<not> k < u" "\<not> k - u < 4" "k - u - 4 = k - (u + 4)" using 3 by linarith+
      then have "(S @ le_bytes len @ p) ! k = p ! (k - (u + 4))"
        unfolding u_def by (simp add: nth_append l4)
      with pay [OF j] show ?thesis unfolding lhs S' e by simp
    qed
  qed
  have nes': "\<forall>q\<in>set (ps @ [p]). q \<noteq> []" using nes ne by simp
  from ok' occ' cap' bytes' nes' have "ring_holds r' (ps @ [p])"
    unfolding ring_holds_def by blast
  with w show thesis by (rule that)
qed

lemma ring_holds_free:
  assumes "ring_holds r ps"
  shows "unat (WriteableBytes r) = unat (capacity r) - length (frames_bytes ps)"
proof -
  from assms have occ: "unat (head r - tail r) = length (frames_bytes ps)"
    and oc: "length (frames_bytes ps) \<le> unat (capacity r)"
    unfolding ring_holds_def by blast+
  have "head r - tail r \<le> capacity r"
    unfolding word_le_nat_alt occ using oc .
  then have "unat (capacity r - (head r - tail r)) = unat (capacity r) - unat (head r - tail r)"
    by (rule unat_sub)
  then show ?thesis unfolding WriteableBytes_def occ .
qed

lemma ring_holds_Write:
  assumes h: "ring_holds r ps" and ne: "p \<noteq> []" and small: "length p + 4 < 2 ^ 32"
    and w: "Write r p (of_nat (length p)) = Inr (True, r')"
  shows "ring_holds r' (ps @ [p])"
proof -
  have ulen: "unat (of_nat (length p) :: u32) = length p"
    using small by (intro unat_of_nat_u32) simp
  have utot: "unat (of_nat (length p) + 4 :: u32) = length p + 4"
    using small ulen by (simp add: unat_word_ariths)
  have "\<not> WriteableBytes r < of_nat (length p) + 4"
    using w unfolding Write_def Let_def by (auto split: if_splits)
  then have "length p + 4 \<le> unat (WriteableBytes r)"
    unfolding word_less_nat_alt utot by simp
  from ring_holds_Write_room [OF h ne this] obtain r'' where
    "Write r p (of_nat (length p)) = Inr (True, r'')" "ring_holds r'' (ps @ [p])"
    by blast
  with w show ?thesis by simp
qed

lemma ring_holds_Read:
  assumes h: "ring_holds r (p # ps)" and m: "length p \<le> unat max_len"
    and ob: "unat max_len \<le> length out"
  obtains r' where
    "Read r out max_len = Inr (of_nat (length p), p @ drop (length p) out, r')"
    "ring_holds r' ps"
proof -
  define c where "c = unat (capacity r)"
  define t where "t = unat (tail r)"
  define n where "n = length p"
  define len :: u32 where "len = of_nat (length p)"
  define R where "R = frames_bytes ps"
  define S where "S = le_bytes len @ p @ R"
  define u where "u = length S"
  have S: "frames_bytes (p # ps) = S"
    unfolding S_def len_def R_def by (rule frames_bytes_simps)
  from h have ok: "ring_ok r" and occ: "unat (head r - tail r) = u" and uc: "u \<le> c"
    and bytes: "\<And>k. k < u \<Longrightarrow> m_data r ! ((t + k) mod c) = S ! k"
    and nes: "\<forall>q\<in>set (p # ps). q \<noteq> []"
    unfolding ring_holds_def S c_def t_def u_def by blast+
  have l4: "length (le_bytes len) = 4" by (rule length_le_bytes)
  have u: "u = 4 + n + length R" unfolding u_def S_def n_def by (simp add: l4)
  have npos: "0 < n" using nes unfolding n_def by simp
  have c31: "c \<le> 2 ^ 31" unfolding c_def by (rule ring_ok_cap_le [OF ok])
  have small: "n + 4 < 2 ^ 32" using u uc c31 by simp
  have ulen: "unat len = n"
    unfolding len_def n_def using small unfolding n_def by (intro unat_of_nat_u32) simp
  have utot: "unat (len + 4) = n + 4"
    using small ulen by (simp add: unat_word_ariths)
  have avail4: "\<not> head r - tail r < 4"
    unfolding word_less_nat_alt occ using u by simp
  have four: "unat (4 :: u32) \<le> unat (capacity r)"
    using u uc unfolding c_def by simp
  have "ReadRaw r (tail r) [0, 0, 0, 0] 4 =
      Inr (map (\<lambda>k. m_data r ! ((t + k) mod c)) [0..<unat (4::u32)] @ drop (unat (4::u32)) [0, 0, 0, 0])"
    unfolding t_def c_def by (rule ReadRaw_bytes [OF ok four]) simp
  moreover have "map (\<lambda>k. m_data r ! ((t + k) mod c)) [0..<4] = le_bytes len"
  proof (rule nth_equalityI)
    show "length (map (\<lambda>k. m_data r ! ((t + k) mod c)) [0..<4]) = length (le_bytes len)"
      by (simp add: l4)
    fix k assume "k < length (map (\<lambda>k. m_data r ! ((t + k) mod c)) [0..<4])"
    then have k: "k < 4" by simp
    then have "m_data r ! ((t + k) mod c) = S ! k" using u by (intro bytes) simp
    also have "\<dots> = le_bytes len ! k" using k unfolding S_def by (simp add: nth_append l4)
    finally show "map (\<lambda>k. m_data r ! ((t + k) mod c)) [0..<4] ! k = le_bytes len ! k"
      using k by simp
  qed
  ultimately have rd1: "ReadRaw r (tail r) [0, 0, 0, 0] 4 = Inr (le_bytes len)"
    by simp
  have lw: "le_word (le_bytes len) = len" by (rule le_word_le_bytes)
  have nz: "len \<noteq> 0"
    using npos ulen by (auto simp: unat_eq_zero)
  have enough: "\<not> head r - tail r < len + 4"
    unfolding word_less_nat_alt occ utot using u by simp
  have fitsbuf: "\<not> max_len < len"
    unfolding word_less_nat_alt ulen using m unfolding n_def by simp
  have nc: "unat len \<le> unat (capacity r)"
    unfolding ulen using u uc unfolding c_def by simp
  have no: "unat len \<le> length out"
    unfolding ulen using m ob unfolding n_def by simp
  have "ReadRaw r (tail r + 4) out len =
      Inr (map (\<lambda>k. m_data r ! ((unat (tail r + 4) + k) mod c)) [0..<n] @ drop n out)"
    using ReadRaw_bytes [OF ok nc no, of "tail r + 4"] unfolding ulen c_def .
  moreover have "map (\<lambda>k. m_data r ! ((unat (tail r + 4) + k) mod c)) [0..<n] = p"
  proof (rule nth_equalityI)
    show "length (map (\<lambda>k. m_data r ! ((unat (tail r + 4) + k) mod c)) [0..<n]) = length p"
      unfolding n_def by simp
    fix k assume "k < length (map (\<lambda>k. m_data r ! ((unat (tail r + 4) + k) mod c)) [0..<n])"
    then have k: "k < n" by simp
    have "(unat (tail r + 4) + k) mod c = (t + (unat (4::u32) + k)) mod c"
      unfolding c_def t_def by (rule pos_add [OF ok])
    then have i: "(unat (tail r + 4) + k) mod c = (t + (4 + k)) mod c" by simp
    have "m_data r ! ((t + (4 + k)) mod c) = S ! (4 + k)" using u k by (intro bytes) simp
    also have "\<dots> = p ! k" using k unfolding S_def n_def by (simp add: nth_append l4)
    finally show "map (\<lambda>k. m_data r ! ((unat (tail r + 4) + k) mod c)) [0..<n] ! k = p ! k"
      using k by (simp add: i)
  qed
  ultimately have rd2: "ReadRaw r (tail r + 4) out len = Inr (p @ drop n out)"
    by simp
  define r' where "r' = r\<lparr>tail := tail r + len + 4\<rparr>"
  have rd: "Read r out max_len = Inr (of_nat (length p), p @ drop (length p) out, r')"
    using avail4 rd1 lw nz enough fitsbuf rd2 [unfolded n_def]
    unfolding Read_def Let_def r'_def len_def [symmetric] by simp
  have ok': "ring_ok r'" using ok unfolding r'_def ring_ok_def by simp
  have "len + 4 \<le> head r - tail r"
    using enough by simp
  then have "unat ((head r - tail r) - (len + 4)) = unat (head r - tail r) - unat (len + 4)"
    by (rule unat_sub)
  moreover have "head r' - tail r' = (head r - tail r) - (len + 4)"
    unfolding r'_def by (simp add: algebra_simps)
  ultimately have occ': "unat (head r' - tail r') = length R"
    unfolding occ utot u by simp
  have cap': "length R \<le> unat (capacity r')"
    using u uc unfolding r'_def c_def by simp
  have bytes': "m_data r' ! ((unat (tail r') + k) mod unat (capacity r')) = R ! k"
    if k: "k < length R" for k
  proof -
    have "tail r' = tail r + (len + 4)" unfolding r'_def by (simp add: algebra_simps)
    then have "(unat (tail r') + k) mod c = (unat (tail r + (len + 4)) + k) mod c" by simp
    also have "\<dots> = (t + (unat (len + 4) + k)) mod c"
      unfolding c_def t_def by (rule pos_add [OF ok])
    finally have i: "(unat (tail r') + k) mod c = (t + (4 + n + k)) mod c"
      unfolding utot by (simp add: add.commute)
    have "m_data r ! ((t + (4 + n + k)) mod c) = S ! (4 + n + k)" using u k by (intro bytes) simp
    also have "\<dots> = R ! k" unfolding S_def n_def by (simp add: nth_append l4)
    finally show ?thesis
      using i unfolding r'_def c_def by simp
  qed
  have nes': "\<forall>q\<in>set ps. q \<noteq> []" using nes by simp
  from ok' occ' cap' bytes' nes' have "ring_holds r' ps"
    unfolding ring_holds_def R_def by blast
  with rd show thesis by (rule that)
qed

lemma ring_holds_empty:
  "ring_holds r [] \<longleftrightarrow> ring_ok r \<and> head r = tail r"
  by (auto simp: ring_holds_def frames_bytes_simps unat_eq_zero)

lemma write_payloads_holds:
  assumes "ring_holds r qs" and "\<forall>p\<in>set ps. p \<noteq> [] \<and> length p + 4 < 2 ^ 32"
    and "write_payloads r ps = Inr (True, r1)"
  shows "ring_holds r1 (qs @ ps)"
  using assms
proof (induction ps arbitrary: r qs)
  case Nil
  then show ?case by simp
next
  case (Cons p ps)
  from Cons.prems(3) obtain r' where w: "Write r p (of_nat (length p)) = Inr (True, r')"
    and rest: "write_payloads r' ps = Inr (True, r1)"
    by (auto split: sum.splits if_splits)
  from Cons.prems(2) have p: "p \<noteq> []" "length p + 4 < 2 ^ 32"
    and ps: "\<forall>p\<in>set ps. p \<noteq> [] \<and> length p + 4 < 2 ^ 32"
    by simp_all
  from Cons.prems(1) p w have "ring_holds r' (qs @ [p])" by (rule ring_holds_Write)
  from Cons.IH [OF this ps rest] show ?case by simp
qed

lemma read_payloads_holds:
  assumes "ring_holds r (ps @ rest)" and "\<forall>p\<in>set ps. length p \<le> unat max_len"
  shows "\<exists>r2. read_payloads r (length ps) max_len = Inr (ps, r2) \<and> ring_holds r2 rest"
  using assms
proof (induction ps arbitrary: r)
  case Nil
  then show ?case by simp
next
  case (Cons p ps)
  from Cons.prems(1) have h: "ring_holds r (p # (ps @ rest))" by simp
  from Cons.prems(2) have m: "length p \<le> unat max_len"
    and ms: "\<forall>p\<in>set ps. length p \<le> unat max_len"
    by simp_all
  have ob: "unat max_len \<le> length (replicate (unat max_len) (0::u8))" by simp
  from ring_holds_Read [OF h m ob] obtain r' where
    rd: "Read r (replicate (unat max_len) 0) max_len =
         Inr (of_nat (length p), p @ drop (length p) (replicate (unat max_len) 0), r')"
    and h': "ring_holds r' (ps @ rest)"
    by blast
  from Cons.IH [OF h' ms] obtain r2 where
    rest: "read_payloads r' (length ps) max_len = Inr (ps, r2)" and h2: "ring_holds r2 rest"
    by blast
  have "length p < 2 ^ 32"
    using m unsigned_less [of max_len, where ?'a = nat] by simp
  then have "unat (of_nat (length p) :: u32) = length p" by (rule unat_of_nat_u32)
  with rd rest have "read_payloads r (length (p # ps)) max_len = Inr (p # ps, r2)"
    by simp
  with h2 show ?case by blast
qed

text \<open>
  Round trip. On a well-formed ring that is empty, at whatever position head and tail
  stand, let every payload of \<open>ps\<close> be non-empty, shorter than \<open>2^32 - 4\<close> bytes and no
  longer than the reader's buffer. If \<open>Write\<close> accepts them all, then as many reads
  return exactly \<open>ps\<close>, in order, and leave the ring well formed and empty again, ready
  for the next batch.
\<close>

theorem roundtrip_nonempty:
  assumes "ring_ok r" and "head r = tail r"
    and "\<forall>p\<in>set ps. p \<noteq> [] \<and> length p \<le> unat max_len \<and> length p + 4 < 2 ^ 32"
    and "write_payloads r ps = Inr (True, r1)"
  shows "\<exists>r2. read_payloads r1 (length ps) max_len = Inr (ps, r2) \<and>
    ring_ok r2 \<and> head r2 = tail r2"
proof -
  from assms(1,2) have "ring_holds r []" by (simp add: ring_holds_empty)
  moreover from assms(3) have "\<forall>p\<in>set ps. p \<noteq> [] \<and> length p + 4 < 2 ^ 32" by blast
  ultimately have "ring_holds r1 ([] @ ps)" using assms(4) by (rule write_payloads_holds)
  then have "ring_holds r1 (ps @ [])" by simp
  moreover from assms(3) have "\<forall>p\<in>set ps. length p \<le> unat max_len" by blast
  ultimately obtain r2 where "read_payloads r1 (length ps) max_len = Inr (ps, r2)"
    and "ring_holds r2 []"
    using read_payloads_holds by blast
  then show ?thesis by (auto simp: ring_holds_empty)
qed

lemma ring_ok_new:
  assumes "unat total_size = 16 + length bytes" and "bytes \<noteq> []"
  shows "ring_ok (ByteRingBuffer_new hdr bytes total_size True)"
proof -
  have ds: "unat (total_size - kHeaderSize) = length bytes"
  proof -
    have "kHeaderSize \<le> total_size"
      using assms(1) by (simp add: word_le_nat_alt kHeaderSize_def)
    then have "unat (total_size - kHeaderSize) = unat total_size - unat kHeaderSize"
      by (rule unat_sub)
    with assms(1) show ?thesis by (simp add: kHeaderSize_def)
  qed
  then have "total_size - kHeaderSize \<noteq> 0"
    using assms(2) by (auto simp: unat_eq_zero)
  then obtain k where k: "k < 32" "RoundDownPow2 (total_size - kHeaderSize) = 2 ^ k"
    "2 ^ k \<le> unat (total_size - kHeaderSize)"
    using RoundDownPow2_correct by blast
  from k(1) have "unat ((2::u32) ^ k) = 2 ^ k" by (rule unat_pow2)
  with k ds show ?thesis
    unfolding ring_ok_def ByteRingBuffer_new_def Let_def by auto
qed

text \<open>
  The 12-byte payload written to the 16-byte ring at position 12 takes the whole ring:
  its length prefix fills offsets 12 to 15 and the payload starts again at offset 0.
\<close>

lemma roundtrip_wrapped_example:
  "\<exists>r1 r2. write_payloads (ring16\<lparr>head := 12, tail := 12\<rparr>) [hello_world] = Inr (True, r1) \<and>
     m_data r1 = hello_world @ [12, 0, 0, 0] \<and>
     read_payloads r1 1 12 = Inr ([hello_world], r2) \<and> ring_ok r2 \<and> head r2 = tail r2"
proof -
  let ?r = "ring16\<lparr>head := 12, tail := 12\<rparr>"
  let ?r1 = "ring16\<lparr>head := 28, tail := 12, m_data := hello_world @ [12, 0, 0, 0]\<rparr>"
  have "capacity ?r = 2 ^ 4" by (simp add: ring16_eq)
  then have ok: "ring_ok ?r"
    unfolding ring_ok_def by (intro conjI exI [of _ 4]) (simp_all add: ring16_eq)
  have e: "head ?r = tail ?r" by simp
  have w: "write_payloads ?r [hello_world] = Inr (True, ?r1)"
    by (simp add: ring16_eq hello_world_def ring_eval)
  have b: "\<forall>p\<in>set [hello_world]. p \<noteq> [] \<and> length p \<le> unat (12 :: u32) \<and> length p + 4 < 2 ^ 32"
    by (simp add: hello_world_def)
  from roundtrip_nonempty [OF ok e b w] w show ?thesis
    by auto
qed

text \<open>
  C1. The round trip fails once an empty payload is accepted. The empty payload and
  then the payload \<open>[65]\<close> are both accepted by \<open>Write\<close> on the empty 16-byte ring. Two
  reads into 8-byte buffers then both return 0 and deliver nothing, and leave the ring
  as it was: the second payload never comes out.
\<close>

theorem roundtrip_lost_after_empty_payload:
  "write_payloads ring16 [Nil, [65]] =
     Inr (True, ring16\<lparr>head := 9,
       m_data := [0, 0, 0, 0, 1, 0, 0, 0, 65, 0xAA, 0xAA, 0xAA, 0xAA, 0xAA, 0xAA, 0xAA]\<rparr>) \<and>
   read_payloads (ring16\<lparr>head := 9,
       m_data := [0, 0, 0, 0, 1, 0, 0, 0, 65, 0xAA, 0xAA, 0xAA, 0xAA, 0xAA, 0xAA, 0xAA]\<rparr>)
       (Suc (Suc 0)) 8 =
     Inr ([Nil, Nil], ring16\<lparr>head := 9,
       m_data := [0, 0, 0, 0, 1, 0, 0, 0, 65, 0xAA, 0xAA, 0xAA, 0xAA, 0xAA, 0xAA, 0xAA]\<rparr>)"
  by (simp add: ring16_eq ring_eval)

section \<open>The consumer facade's region size\<close>

text \<open>
  C9 as stated fails: with a size hint of 0 the consumer facade does not open the
  provider with size 0. It asks for \<open>kDefaultSize\<close>, 6220816 bytes, so on a region of
  80 bytes the size handed to \<^verbatim>\<open>mmap\<close> is 6220816, not the region's 80.
\<close>

theorem ShmConsumer_no_autodetect_counterexample:
  "ShmConsumer_shm_size 0 \<noteq> 0 \<and> PosixOpen_size (ShmConsumer_shm_size 0) True 80 \<noteq> 80"
  by (simp add: ShmConsumer_shm_size_def PosixOpen_size_def kDefaultSize_def kHeaderSize_def)

text \<open>
  C9 amended. The consumer facade passes the caller's size hint to the provider when
  it is not 0, and the fixed default 1920 * 1080 * 3 + 16 = 6220816 when it is 0. The
  size it passes is never 0, so the provider maps exactly that size whatever the
  region's own size is; the provider detects the size (here 80) only when it is opened
  with size 0.
\<close>

theorem ShmConsumer_default_size:
  "ShmConsumer_shm_size sz = (if sz = 0 then 6220816 else unat sz) \<and>
   ShmConsumer_shm_size sz \<noteq> 0 \<and>
   PosixOpen_size (ShmConsumer_shm_size sz) fstat_ok st_size = ShmConsumer_shm_size sz \<and>
   PosixOpen_size 0 True 80 = 80"
proof -
  have a: "ShmConsumer_shm_size sz = (if sz = 0 then 6220816 else unat sz)"
    by (simp add: ShmConsumer_shm_size_def kDefaultSize_def kHeaderSize_def word_greater_zero_iff)
  have b: "ShmConsumer_shm_size sz \<noteq> 0"
    unfolding a by (simp add: unat_gt_0)
  from a b show ?thesis
    by (simp add: PosixOpen_size_def)
qed

section \<open>Shared-memory names\<close>

text \<open>
  C10. On POSIX the name kept by \<open>SharedMemory\<close> has at most 63 characters. A name that
  starts with a slash and is longer than 63 is cut to its first 63 characters; a name
  without a leading slash that is longer than 62 becomes a slash and its first 62
  characters. \<open>NormalizeName\<close> yields nothing but the name, so the cut is silent, and two
  names without a leading slash that agree on their first 62 characters get the same
  name.
\<close>

theorem NormalizeName_truncates:
  "length (NormalizeName name) \<le> 63 \<and>
   (name \<noteq> [] \<and> hd name = CHR ''/'' \<and> length name > 63 \<longrightarrow> NormalizeName name = take 63 name) \<and>
   (\<not> (name \<noteq> [] \<and> hd name = CHR ''/'') \<and> length name > 62 \<longrightarrow>
      NormalizeName name = CHR ''/'' # take 62 name) \<and>
   (\<forall>other. \<not> (name \<noteq> [] \<and> hd name = CHR ''/'') \<and> \<not> (other \<noteq> [] \<and> hd other = CHR ''/'') \<and>
      take 62 name = take 62 other \<longrightarrow> NormalizeName name = NormalizeName other)"
  by (auto simp: NormalizeName_def sizeof_name_def Let_def)

theorem NormalizeName_truncates_witness:
  "NormalizeName (CHR ''/'' # replicate 70 CHR ''a'') = CHR ''/'' # replicate 62 CHR ''a'' \<and>
   NormalizeName (replicate 70 CHR ''a'') = CHR ''/'' # replicate 62 CHR ''a'' \<and>
   replicate 70 CHR ''a'' \<noteq> replicate 71 CHR ''a'' \<and>
   NormalizeName (replicate 70 CHR ''a'') = NormalizeName (replicate 71 CHR ''a'')"
proof -
  let ?s = "CHR ''/'' # replicate 70 CHR ''a''"
  let ?a = "replicate 70 CHR ''a''"
  let ?b = "replicate 71 CHR ''a''"
  have ne: "?a \<noteq> ?b"
    by simp
  have s1: "?s \<noteq> [] \<and> hd ?s = CHR ''/'' \<and> length ?s > 63"
    by simp
  have a1: "\<not> (?a \<noteq> [] \<and> hd ?a = CHR ''/'') \<and> length ?a > 62"
    by simp
  have b1: "\<not> (?b \<noteq> [] \<and> hd ?b = CHR ''/'')"
    by simp
  have ab: "take 62 ?a = take 62 ?b"
    by simp
  from NormalizeName_truncates [of ?s] s1 have c1: "NormalizeName ?s = take 63 ?s"
    by blast
  from NormalizeName_truncates [of ?a] a1 have c2: "NormalizeName ?a = CHR ''/'' # take 62 ?a"
    by blast
  from NormalizeName_truncates [of ?a] a1 b1 ab have c3: "NormalizeName ?a = NormalizeName ?b"
    by blast
  have t1: "take 63 ?s = CHR ''/'' # replicate 62 CHR ''a''"
    by (simp add: take_Cons')
  have t2: "take 62 ?a = replicate 62 CHR ''a''"
    by simp
  from c1 c2 c3 ne t1 t2 show ?thesis by simp
qed

end
